theory Spec2Isabelle
  imports Main "HOL-Library.Word" "HOL-Library.AList" "HOL-Library.Sublist"
begin

section \<open>JavaScript strings\<close>

text \<open>
  A JavaScript string is a sequence of UTF-16 code units.  String literals of the source are
  written \<open>str ''...''\<close>.
\<close>

type_synonym jsstring = "16 word list"

definition str :: "string \<Rightarrow> jsstring" where
  "str s = map of_char s"

text \<open>
  \<open>String.prototype.trim\<close> strips the code units of ECMAScript's WhiteSpace and
  LineTerminator productions from both ends.
\<close>

definition isWhiteSpace :: "16 word \<Rightarrow> bool" where
  "isWhiteSpace c \<longleftrightarrow>
     c \<in> set [0x9, 0xA, 0xB, 0xC, 0xD, 0x20, 0xA0, 0x1680, 0x2028, 0x2029,
                0x202F, 0x205F, 0x3000, 0xFEFF]
     \<or> (0x2000 \<le> c \<and> c \<le> 0x200A)"

definition trim :: "jsstring \<Rightarrow> jsstring" where
  "trim s = rev (dropWhile isWhiteSpace (rev (dropWhile isWhiteSpace s)))"

text \<open>\<open>s.split(sep)\<close> for a separator of one code unit: never an empty result.\<close>

fun js_split :: "16 word \<Rightarrow> jsstring \<Rightarrow> jsstring list" where
  "js_split sep [] = [[]]"
| "js_split sep (c # cs) =
     (if c = sep then [] # js_split sep cs
      else (case js_split sep cs of
              [] \<Rightarrow> [[c]]
            | p # ps \<Rightarrow> (c # p) # ps))"

text \<open>\<open>s.indexOf(c)\<close> for a search string of one code unit: the first index, or \<open>-1\<close>.\<close>

fun indexOf :: "jsstring \<Rightarrow> 16 word \<Rightarrow> int" where
  "indexOf [] c = - 1"
| "indexOf (x # xs) c =
     (if x = c then 0
      else (let i = indexOf xs c in if i = - 1 then - 1 else i + 1))"

text \<open>
  \<open>s.slice(start, end)\<close>: a negative index counts from the end, and both are clamped to
  the string.  \<open>s.slice(start)\<close> is \<open>slice_from\<close>.
\<close>

definition slice :: "jsstring \<Rightarrow> int \<Rightarrow> int \<Rightarrow> jsstring" where
  "slice s start end =
     (let len = int (length s);
          from = (if start < 0 then max (len + start) 0 else min start len);
          to = (if end < 0 then max (len + end) 0 else min end len)
      in take (nat (to - from)) (drop (nat from) s))"

definition slice_from :: "jsstring \<Rightarrow> int \<Rightarrow> jsstring" where
  "slice_from s start = slice s start (int (length s))"

definition comma :: "16 word" where
  "comma = 0x2C"

definition colon :: "16 word" where
  "colon = 0x3A"

text \<open>\<open>String(n)\<close> of a natural number, and \<open>padStart\<close> with a one-unit filler.\<close>

fun String_of_nat :: "nat \<Rightarrow> jsstring" where
  "String_of_nat n =
     (if n < 10 then [of_nat (48 + n)]
      else String_of_nat (n div 10) @ [of_nat (48 + n mod 10)])"

definition padStart :: "nat \<Rightarrow> 16 word \<Rightarrow> jsstring \<Rightarrow> jsstring" where
  "padStart n c s = replicate (n - length s) c @ s"

section \<open>Maps, the console, exceptions\<close>

text \<open>
  A \<open>Map<string, string>\<close> keeps its entries in insertion order; \<open>set\<close> on a key that is
  present replaces the value in place.
\<close>

type_synonym js_map = "(jsstring \<times> jsstring) list"

definition Map_get :: "js_map \<Rightarrow> jsstring \<Rightarrow> jsstring option" where
  "Map_get m k = map_of m k"

definition Map_set :: "jsstring \<Rightarrow> jsstring \<Rightarrow> js_map \<Rightarrow> js_map" where
  "Map_set k v m = AList.update k v m"

definition Map_size :: "js_map \<Rightarrow> nat" where
  "Map_size m = length m"

text \<open>
  A line written through \<open>consola\<close>: its level, the fixed text of the message and the
  interpolated values.
\<close>

datatype log_level = LDebug | LInfo | LWarn | LError

datatype log_arg = S jsstring | N nat

datatype log_event = Log log_level string "log_arg list"

datatype js_error = SyntaxError | TypeError | OtherError jsstring

section \<open>lib/model-mapping.ts: parsing and lookup\<close>

text \<open>One iteration of the loop over \<open>pairs\<close>; the accumulator is the map and the warnings.\<close>

definition parse_pair :: "js_map \<times> log_event list \<Rightarrow> jsstring \<Rightarrow> js_map \<times> log_event list" where
  "parse_pair acc pair =
     (let mappings = fst acc; warnings = snd acc; trimmedPair = trim pair in
      if trimmedPair = [] then acc
      else
        let colonIndex = indexOf trimmedPair colon in
        if colonIndex = - 1
        then (mappings, warnings @ [Log LWarn ''Invalid model mapping format'' [S trimmedPair]])
        else
          let source = trim (slice trimmedPair 0 colonIndex);
              target = trim (slice_from trimmedPair (colonIndex + 1))
          in if source = [] \<or> target = []
             then (mappings, warnings @ [Log LWarn ''Invalid model mapping'' [S trimmedPair]])
             else (Map_set source target mappings, warnings))"

definition parseModelMappings :: "jsstring option \<Rightarrow> js_map \<times> log_event list" where
  "parseModelMappings envValue =
     (case envValue of
        None \<Rightarrow> ([], [])
      | Some v \<Rightarrow>
          if v = [] \<or> trim v = [] then ([], [])
          else foldl parse_pair ([], []) (js_split comma v))"

record mapping_result =
  model :: jsstring
  mapped :: bool

definition applyModelMapping ::
  "jsstring \<Rightarrow> js_map \<Rightarrow> bool \<Rightarrow> mapping_result \<times> log_event list" where
  "applyModelMapping modelName mappings verbose =
     (case Map_get mappings modelName of
        None \<Rightarrow> (\<lparr>model = modelName, mapped = False\<rparr>, [])
      | Some mappedModel \<Rightarrow>
          if mappedModel \<noteq> []
          then (\<lparr>model = mappedModel, mapped = True\<rparr>,
                if verbose then [Log LWarn ''Model mapping applied'' [S modelName, S mappedModel]]
                else [])
          else (\<lparr>model = modelName, mapped = False\<rparr>, []))"


text \<open>The helpers below state the properties of \<open>parseModelMappings\<close>.\<close>

definition trimmed :: "jsstring \<Rightarrow> bool" where
  "trimmed s \<longleftrightarrow> s \<noteq> [] \<and> \<not> isWhiteSpace (hd s) \<and> \<not> isWhiteSpace (last s)"

definition parse_entry :: "js_map \<Rightarrow> jsstring \<Rightarrow> js_map" where
  "parse_entry m pair = fst (parse_pair (m, []) pair)"

fun join :: "16 word \<Rightarrow> jsstring list \<Rightarrow> jsstring" where
  "join sep [] = []"
| "join sep [p] = p"
| "join sep (p # q # ps) = p @ sep # join sep (q # ps)"

section \<open>Wire types\<close>

text \<open>
  Modelled from the spec: \<open>anthropic-types.ts\<close> and the chunk type of
  \<open>create-chat-completions.ts\<close> are not among the sources; the shapes below are the
  spec's OpenAIChunk, AnthropicEvent and StreamState, with the field names of the state
  literal in \<open>handler.ts\<close>.  \<open>'j\<close> stands for the JSON values the handler only passes on.
\<close>

record 'j AnthropicMessagesPayload =
  payload_model :: jsstring
  payload_rest :: 'j

record tool_call_delta =
  tc_index :: nat
  tc_id :: "jsstring option"
  tc_name :: "jsstring option"
  tc_arguments :: "jsstring option"

record ChatCompletionChunk =
  delta_role :: "jsstring option"
  delta_content :: "jsstring option"
  delta_tool_calls :: "tool_call_delta list"
  finish_reason :: "jsstring option"

datatype content_block = text_block jsstring | tool_use_block "jsstring option" "jsstring option"

datatype block_delta = text_delta jsstring | input_json_delta jsstring

datatype AnthropicEvent =
    message_start
  | content_block_start int content_block
  | content_block_delta int block_delta
  | content_block_stop int
  | message_delta jsstring
  | message_stop

fun event_type :: "AnthropicEvent \<Rightarrow> jsstring" where
  "event_type message_start = str ''message_start''"
| "event_type (content_block_start i b) = str ''content_block_start''"
| "event_type (content_block_delta i d) = str ''content_block_delta''"
| "event_type (content_block_stop i) = str ''content_block_stop''"
| "event_type (message_delta r) = str ''message_delta''"
| "event_type message_stop = str ''message_stop''"

record tool_call_info =
  content_block_index :: int
  tool_id :: "jsstring option"
  tool_name :: "jsstring option"
  name_sent :: bool

record AnthropicStreamState =
  messageStartSent :: bool
  contentBlockIndex :: int
  contentBlockOpen :: bool
  toolCalls :: "(nat \<times> tool_call_info) list"

text \<open>What the backend call resolves to, as the handler looks at it: the names of the
  object's own properties, the object as a JSON value, and what iterating it yields
  (\<open>None\<close> when it is not iterable).  A raw event carries an optional \<open>data\<close> string.\<close>

record raw_event =
  raw_data :: "jsstring option"

datatype stream_end = Exhausted | Aborted js_error

record 'j backend_result =
  own_props :: "jsstring list"
  body :: 'j
  iteration :: "(raw_event list \<times> stream_end) option"

record SSEMessage =
  sse_event :: jsstring
  sse_data :: jsstring

datatype 'j http_response = json_response 'j | sse_response

text \<open>The values handed to the tracer, and what \<open>JSON.stringify\<close> is applied to there:
  the caller's value, or the object \<open>{streaming: true, chunks}\<close> of \<open>StreamTracer.finish\<close>.\<close>

datatype 'j trace_value =
    request_doc "'j AnthropicMessagesPayload"
  | response_doc 'j 'j
  | chunk_pair ChatCompletionChunk AnthropicEvent

datatype 'v traced = plain 'v | streaming "'v list"

section \<open>The process state and its effects\<close>

text \<open>\<open>lib/state.ts\<close>: the fields the modelled code reads.\<close>

record State =
  manualApprove :: bool
  verbose :: bool
  traceEnabled :: bool
  traceFolder :: "jsstring option"

record Date =
  getFullYear :: nat
  getMonth :: nat
  getDate :: nat
  getHours :: nat
  getMinutes :: nat
  getSeconds :: nat
  getMilliseconds :: nat

text \<open>
  \<open>calls\<close> is a ghost log of the calls the handler makes, in order; the temporal
  properties are stated on it.  Nothing reads it.
\<close>

datatype 'j call =
    call_checkRateLimit
  | call_req_json
  | call_getModelMappings
  | call_traceRequest "'j AnthropicMessagesPayload"
  | call_translateToOpenAI "'j AnthropicMessagesPayload"
  | call_awaitApproval
  | resolved_awaitApproval
  | call_createChatCompletions 'j
  | call_translateToAnthropic 'j
  | call_traceResponse
  | call_json 'j
  | call_streamSSE
  | read_rawEvent raw_event
  | call_translateChunk ChatCompletionChunk AnthropicStreamState
  | returned_translateChunk "AnthropicEvent list"
  | call_writeSSE SSEMessage
  | call_finish
  | stream_closed "js_error option"

text \<open>
  The world: the environment variable, the module variables of \<open>model-mapping.ts\<close> with
  the store of the \<open>Map\<close> objects they refer to, \<open>state\<close>, the clock, the console, the
  outbound SSE transport, and \<open>outside\<close>: everything the external collaborators own
  (file system, rate limiter, approval queue, network).
\<close>

record ('j, 'x) world =
  process_env_MODEL_MAPPINGS :: "jsstring option"
  cachedMappings :: "nat option"
  cachedEnvValue :: "jsstring option"
  heap :: "nat \<Rightarrow> js_map"
  next_ref :: nat
  state :: State
  now :: Date
  consola :: "log_event list"
  sse_out :: "SSEMessage list"
  outside :: 'x
  calls :: "'j call list"

text \<open>A computation returns a value or throws, and changes the world either way.\<close>

type_synonym ('a, 'w) io = "'w \<Rightarrow> (js_error + 'a) \<times> 'w"

definition io_return :: "'a \<Rightarrow> ('a, 'w) io" where
  "io_return x = (\<lambda>w. (Inr x, w))"

definition io_throw :: "js_error \<Rightarrow> ('a, 'w) io" where
  "io_throw e = (\<lambda>w. (Inl e, w))"

definition io_bind :: "('a, 'w) io \<Rightarrow> ('a \<Rightarrow> ('b, 'w) io) \<Rightarrow> ('b, 'w) io" where
  "io_bind m f = (\<lambda>w. case m w of (Inl e, w') \<Rightarrow> (Inl e, w') | (Inr x, w') \<Rightarrow> f x w')"

definition try_catch :: "('a, 'w) io \<Rightarrow> (js_error \<Rightarrow> ('a, 'w) io) \<Rightarrow> ('a, 'w) io" where
  "try_catch m h = (\<lambda>w. case m w of (Inl e, w') \<Rightarrow> h e w' | (Inr x, w') \<Rightarrow> (Inr x, w'))"

definition of_result :: "js_error + 'a \<Rightarrow> ('a, 'w) io" where
  "of_result r = (\<lambda>w. (r, w))"

definition outside_io :: "('a, 'x) io \<Rightarrow> ('a, ('j, 'x) world) io" where
  "outside_io m = (\<lambda>w. case m (outside w) of (r, x') \<Rightarrow> (r, w\<lparr>outside := x'\<rparr>))"

definition consola_log :: "log_level \<Rightarrow> string \<Rightarrow> log_arg list \<Rightarrow> (unit, ('j, 'x) world) io" where
  "consola_log l t args = (\<lambda>w. (Inr (), w\<lparr>consola := consola w @ [Log l t args]\<rparr>))"

definition mark :: "'j call \<Rightarrow> (unit, ('j, 'x) world) io" where
  "mark c = (\<lambda>w. (Inr (), w\<lparr>calls := calls w @ [c]\<rparr>))"

text \<open>\<open>!s\<close> for a value of type \<open>string | undefined | null\<close>.\<close>

definition falsy :: "jsstring option \<Rightarrow> bool" where
  "falsy s \<longleftrightarrow> s = None \<or> s = Some []"

section \<open>lib/model-mapping.ts: the cache\<close>

definition getModelMappings :: "(nat, ('j, 'x) world) io" where
  "getModelMappings = (\<lambda>w.
     let envValue = process_env_MODEL_MAPPINGS w in
     if cachedMappings w \<noteq> None \<and> cachedEnvValue w = envValue
     then (Inr (the (cachedMappings w)), w)
     else
       let parsed = parseModelMappings envValue;
           r = next_ref w;
           w1 = w\<lparr>cachedEnvValue := envValue, cachedMappings := Some r,
                  heap := (heap w)(r := fst parsed), next_ref := Suc r,
                  consola := consola w @ snd parsed\<rparr>;
           w2 = (if Map_size (fst parsed) > 0
                 then w1\<lparr>consola := consola w1 @
                        [Log LInfo ''Loaded model mapping(s)'' [N (Map_size (fst parsed))]]\<rparr>
                 else w1)
       in (Inr r, w2))"

definition clearModelMappingsCache :: "(unit, ('j, 'x) world) io" where
  "clearModelMappingsCache = (\<lambda>w. (Inr (), w\<lparr>cachedMappings := None, cachedEnvValue := None\<rparr>))"

text \<open>The states the module can be in: it starts with an empty cache, and only the two
  functions above change the module variables and the store of the maps (rule \<open>other\<close>:
  the rest of the program changes the rest of the world).\<close>

inductive reachable :: "('j, 'x) world \<Rightarrow> bool" where
  start: "cachedMappings w = None \<Longrightarrow> cachedEnvValue w = None \<Longrightarrow> reachable w"
| get: "reachable w \<Longrightarrow> reachable (snd (getModelMappings w))"
| clear: "reachable w \<Longrightarrow> reachable (snd (clearModelMappingsCache w))"
| setenv: "reachable w \<Longrightarrow> reachable (w\<lparr>process_env_MODEL_MAPPINGS := v\<rparr>)"
| other: "reachable w \<Longrightarrow> cachedMappings w' = cachedMappings w \<Longrightarrow>
     cachedEnvValue w' = cachedEnvValue w \<Longrightarrow> heap w' = heap w \<Longrightarrow>
     next_ref w' = next_ref w \<Longrightarrow> reachable w'"

section \<open>lib/trace.ts\<close>

text \<open>The Node and JSON functions the tracer calls; each may throw.\<close>

record ('v, 'x) node_api =
  fs_mkdir :: "jsstring \<Rightarrow> (unit, 'x) io"
  fs_writeFile :: "jsstring \<Rightarrow> jsstring \<Rightarrow> (unit, 'x) io"
  path_join :: "jsstring \<Rightarrow> jsstring \<Rightarrow> jsstring"
  JSON_stringify_pretty :: "'v traced \<Rightarrow> js_error + jsstring"

definition getTimestamp :: "Date \<Rightarrow> jsstring" where
  "getTimestamp d =
     (let year = String_of_nat (getFullYear d);
          month = padStart 2 0x30 (String_of_nat (getMonth d + 1));
          day = padStart 2 0x30 (String_of_nat (getDate d));
          hours = padStart 2 0x30 (String_of_nat (getHours d));
          minutes = padStart 2 0x30 (String_of_nat (getMinutes d));
          seconds = padStart 2 0x30 (String_of_nat (getSeconds d));
          millis = padStart 3 0x30 (String_of_nat (getMilliseconds d))
      in year @ month @ day @ str ''_'' @ hours @ minutes @ seconds @ str ''_'' @ millis)"

definition ensureTraceFolder :: "('v, 'x) node_api \<Rightarrow> (unit, ('j, 'x) world) io" where
  "ensureTraceFolder A = (\<lambda>w.
     if \<not> traceEnabled (state w) \<or> falsy (traceFolder (state w)) then (Inr (), w)
     else
       let folder = the (traceFolder (state w)) in
       try_catch
         (io_bind (outside_io (fs_mkdir A folder)) (\<lambda>_.
          consola_log LDebug ''Trace folder ensured'' [S folder]))
         (\<lambda>error. consola_log LError ''Failed to create trace folder:'' [])
         w)"

definition traceRequest ::
  "('v, 'x) node_api \<Rightarrow> 'v \<Rightarrow> (jsstring option, ('j, 'x) world) io" where
  "traceRequest A request = (\<lambda>w.
     if \<not> traceEnabled (state w) \<or> falsy (traceFolder (state w)) then (Inr None, w)
     else
       let timestamp = getTimestamp (now w);
           filename = timestamp @ str ''.req'';
           filepath = path_join A (the (traceFolder (state w))) filename
       in try_catch
            (io_bind (of_result (JSON_stringify_pretty A (plain request))) (\<lambda>content.
             io_bind (outside_io (fs_writeFile A filepath content)) (\<lambda>_.
             io_bind (consola_log LDebug ''Trace request written'' [S filepath]) (\<lambda>_.
             io_return (Some timestamp)))))
            (\<lambda>error.
             io_bind (consola_log LError ''Failed to write trace request:'' []) (\<lambda>_.
             io_return None))
            w)"

definition traceResponse ::
  "('v, 'x) node_api \<Rightarrow> 'v \<Rightarrow> jsstring option \<Rightarrow> (unit, ('j, 'x) world) io" where
  "traceResponse A response timestamp = (\<lambda>w.
     if \<not> traceEnabled (state w) \<or> falsy (traceFolder (state w)) \<or> falsy timestamp
     then (Inr (), w)
     else
       let filename = the timestamp @ str ''.resp'';
           filepath = path_join A (the (traceFolder (state w))) filename
       in try_catch
            (io_bind (of_result (JSON_stringify_pretty A (plain response))) (\<lambda>content.
             io_bind (outside_io (fs_writeFile A filepath content)) (\<lambda>_.
             consola_log LDebug ''Trace response written'' [S filepath])))
            (\<lambda>error. consola_log LError ''Failed to write trace response:'' [])
            w)"

record 'v StreamTracer =
  chunks :: "'v list"
  timestamp :: "jsstring option"

definition new_StreamTracer :: "jsstring option \<Rightarrow> 'v StreamTracer" where
  "new_StreamTracer ts = \<lparr>chunks = [], timestamp = ts\<rparr>"

definition addChunk :: "'v \<Rightarrow> 'v StreamTracer \<Rightarrow> ('v StreamTracer, ('j, 'x) world) io" where
  "addChunk chunk t = (\<lambda>w.
     if \<not> traceEnabled (state w) then (Inr t, w)
     else (Inr (t\<lparr>chunks := chunks t @ [chunk]\<rparr>), w))"

definition finish :: "('v, 'x) node_api \<Rightarrow> 'v StreamTracer \<Rightarrow> (unit, ('j, 'x) world) io" where
  "finish A t = (\<lambda>w.
     if \<not> traceEnabled (state w) \<or> falsy (traceFolder (state w)) \<or> falsy (timestamp t)
     then (Inr (), w)
     else
       let filename = the (timestamp t) @ str ''.resp'';
           filepath = path_join A (the (traceFolder (state w))) filename
       in try_catch
            (io_bind (of_result (JSON_stringify_pretty A (streaming (chunks t)))) (\<lambda>content.
             io_bind (outside_io (fs_writeFile A filepath content)) (\<lambda>_.
             consola_log LDebug ''Trace streaming response written'' [S filepath])))
            (\<lambda>error. consola_log LError ''Failed to write trace streaming response:'' [])
            w)"

section \<open>routes/messages/stream-translation.ts\<close>

text \<open>
  Modelled from the spec: \<open>translateChunkToAnthropicEvents\<close> is not among the sources.
  The definitions of this section follow the spec's algorithm for one chunk (section 4.3),
  step by step, and the stop reason table of section 4.2.  The edge case policy (a chunk
  with an empty delta and no finish reason produces no events) is checked first.
\<close>

definition map_stop_reason :: "jsstring \<Rightarrow> jsstring" where
  "map_stop_reason r =
     (if r = str ''stop'' then str ''end_turn''
      else if r = str ''length'' then str ''max_tokens''
      else if r = str ''tool_calls'' then str ''tool_use''
      else if r = str ''content_filter'' then str ''stop_sequence''
      else str ''end_turn'')"

definition then_emit ::
  "AnthropicEvent list \<times> AnthropicStreamState \<Rightarrow>
   (AnthropicStreamState \<Rightarrow> AnthropicEvent list \<times> AnthropicStreamState) \<Rightarrow>
   AnthropicEvent list \<times> AnthropicStreamState" where
  "then_emit r f = (let r' = f (snd r) in (fst r @ fst r', snd r'))"

definition isToolBlockOpen :: "AnthropicStreamState \<Rightarrow> bool" where
  "isToolBlockOpen st \<longleftrightarrow>
     contentBlockOpen st \<and>
     list_ex (\<lambda>tc. content_block_index (snd tc) = contentBlockIndex st) (toolCalls st)"

definition close_open_block ::
  "AnthropicStreamState \<Rightarrow> AnthropicEvent list \<times> AnthropicStreamState" where
  "close_open_block st =
     (if contentBlockOpen st
      then ([content_block_stop (contentBlockIndex st)], st\<lparr>contentBlockOpen := False\<rparr>)
      else ([], st))"

definition step_message_start ::
  "AnthropicStreamState \<Rightarrow> AnthropicEvent list \<times> AnthropicStreamState" where
  "step_message_start st =
     (if \<not> messageStartSent st then ([message_start], st\<lparr>messageStartSent := True\<rparr>)
      else ([], st))"

definition open_block ::
  "(int \<Rightarrow> AnthropicEvent) \<Rightarrow> AnthropicStreamState \<Rightarrow>
   AnthropicEvent list \<times> AnthropicStreamState" where
  "open_block start st =
     (let idx = contentBlockIndex st + 1
      in ([start idx], st\<lparr>contentBlockIndex := idx, contentBlockOpen := True\<rparr>))"

definition step_text ::
  "ChatCompletionChunk \<Rightarrow> AnthropicStreamState \<Rightarrow>
   AnthropicEvent list \<times> AnthropicStreamState" where
  "step_text chunk st =
     (case delta_content chunk of
        None \<Rightarrow> ([], st)
      | Some fragment \<Rightarrow>
          if fragment = [] then ([], st)
          else
            then_emit
              (if \<not> contentBlockOpen st \<or> isToolBlockOpen st
               then then_emit (close_open_block st)
                      (open_block (\<lambda>idx. content_block_start idx (text_block [])))
               else ([], st))
              (\<lambda>st'. ([content_block_delta (contentBlockIndex st') (text_delta fragment)], st')))"

definition step_tool_call ::
  "tool_call_delta \<Rightarrow> AnthropicStreamState \<Rightarrow>
   AnthropicEvent list \<times> AnthropicStreamState" where
  "step_tool_call entry st =
     then_emit
       (case map_of (toolCalls st) (tc_index entry) of
          Some known \<Rightarrow> ([], st)
        | None \<Rightarrow>
            then_emit
              (then_emit (close_open_block st)
                 (open_block
                    (\<lambda>idx. content_block_start idx (tool_use_block (tc_id entry) (tc_name entry)))))
              (\<lambda>st'. ([], st'\<lparr>toolCalls := toolCalls st' @
                   [(tc_index entry,
                     \<lparr>content_block_index = contentBlockIndex st', tool_id = tc_id entry,
                      tool_name = tc_name entry, name_sent = True\<rparr>)]\<rparr>)))
       (\<lambda>st'. case tc_arguments entry of
                 None \<Rightarrow> ([], st')
               | Some fragment \<Rightarrow>
                   ([content_block_delta
                       (case map_of (toolCalls st') (tc_index entry) of
                          Some known \<Rightarrow> content_block_index known
                        | None \<Rightarrow> contentBlockIndex st')
                       (input_json_delta fragment)], st'))"

fun step_tool_calls ::
  "tool_call_delta list \<Rightarrow> AnthropicStreamState \<Rightarrow>
   AnthropicEvent list \<times> AnthropicStreamState" where
  "step_tool_calls [] st = ([], st)"
| "step_tool_calls (entry # entries) st =
     then_emit (step_tool_call entry st) (step_tool_calls entries)"

definition step_finish ::
  "ChatCompletionChunk \<Rightarrow> AnthropicStreamState \<Rightarrow>
   AnthropicEvent list \<times> AnthropicStreamState" where
  "step_finish chunk st =
     (case finish_reason chunk of
        None \<Rightarrow> ([], st)
      | Some reason \<Rightarrow>
          then_emit (close_open_block st)
            (\<lambda>st'. ([message_delta (map_stop_reason reason), message_stop], st')))"

definition empty_delta :: "ChatCompletionChunk \<Rightarrow> bool" where
  "empty_delta chunk \<longleftrightarrow>
     delta_role chunk = None \<and> delta_content chunk = None \<and> delta_tool_calls chunk = []"

definition translateChunk_spec ::
  "ChatCompletionChunk \<Rightarrow> AnthropicStreamState \<Rightarrow>
   AnthropicEvent list \<times> AnthropicStreamState" where
  "translateChunk_spec chunk st =
     (if empty_delta chunk \<and> finish_reason chunk = None then ([], st)
      else
        then_emit
          (then_emit
             (then_emit (step_message_start st) (step_text chunk))
             (step_tool_calls (delta_tool_calls chunk)))
          (step_finish chunk))"

section \<open>routes/messages/handler.ts\<close>

text \<open>
  The collaborators of the handler that are not among the sources are parameters: each is
  any function of its type, and the ones that reach outside the process run on \<open>outside\<close>.
  \<open>JSON.parse\<close> throws on a string that is not JSON; \<open>JSON.stringify\<close> of an event is
  total.  \<open>stream.writeSSE\<close> appends a frame to the transport and never throws.
\<close>

record ('j, 'x) externals =
  checkRateLimit :: "(unit, 'x) io"
  translateToOpenAI :: "'j AnthropicMessagesPayload \<Rightarrow> js_error + 'j"
  awaitApproval :: "(unit, 'x) io"
  createChatCompletions :: "'j \<Rightarrow> ('j backend_result, 'x) io"
  translateToAnthropic :: "'j \<Rightarrow> js_error + 'j"
  translateChunkToAnthropicEvents ::
    "ChatCompletionChunk \<Rightarrow> AnthropicStreamState \<Rightarrow>
     js_error + AnthropicEvent list \<times> AnthropicStreamState"
  JSON_parse :: "jsstring \<Rightarrow> js_error + ChatCompletionChunk"
  JSON_stringify :: "AnthropicEvent \<Rightarrow> jsstring"
  node :: "('j trace_value, 'x) node_api"

record 'j Context =
  req_json :: "js_error + 'j AnthropicMessagesPayload"

definition isNonStreaming :: "'j backend_result \<Rightarrow> bool" where
  "isNonStreaming response \<longleftrightarrow> str ''choices'' \<in> set (own_props response)"

definition initialStreamState :: AnthropicStreamState where
  "initialStreamState =
     \<lparr>messageStartSent = False, contentBlockIndex = 0, contentBlockOpen = False,
      toolCalls = []\<rparr>"

definition writeSSE :: "SSEMessage \<Rightarrow> (unit, ('j, 'x) world) io" where
  "writeSSE message = (\<lambda>w. (Inr (), w\<lparr>sse_out := sse_out w @ [message]\<rparr>))"

definition frame :: "('j, 'x) externals \<Rightarrow> AnthropicEvent \<Rightarrow> SSEMessage" where
  "frame X event = \<lparr>sse_event = event_type event, sse_data = JSON_stringify X event\<rparr>"

text \<open>The inner loop, \<open>for (const event of events)\<close>.\<close>

fun write_events ::
  "('j, 'x) externals \<Rightarrow> ChatCompletionChunk \<Rightarrow> AnthropicEvent list \<Rightarrow>
   'j trace_value StreamTracer \<Rightarrow> ('j trace_value StreamTracer, ('j, 'x) world) io" where
  "write_events X chunk [] streamTracer = io_return streamTracer"
| "write_events X chunk (event # events) streamTracer =
     io_bind (consola_log LDebug ''Translated Anthropic event:'' []) (\<lambda>_.
     io_bind (addChunk (chunk_pair chunk event) streamTracer) (\<lambda>streamTracer'.
     io_bind (mark (call_writeSSE (frame X event))) (\<lambda>_.
     io_bind (writeSSE (frame X event)) (\<lambda>_.
     write_events X chunk events streamTracer'))))"

text \<open>The outer loop, \<open>for await (const rawEvent of response)\<close>, over what the response
  yields; \<open>break\<close> returns, \<open>continue\<close> goes on with the rest.\<close>

fun for_await ::
  "('j, 'x) externals \<Rightarrow> raw_event list \<Rightarrow> stream_end \<Rightarrow>
   AnthropicStreamState \<times> 'j trace_value StreamTracer \<Rightarrow>
   (AnthropicStreamState \<times> 'j trace_value StreamTracer, ('j, 'x) world) io" where
  "for_await X [] fin acc =
     (case fin of Exhausted \<Rightarrow> io_return acc | Aborted e \<Rightarrow> io_throw e)"
| "for_await X (rawEvent # rest) fin acc =
     io_bind (mark (read_rawEvent rawEvent)) (\<lambda>_.
     io_bind (consola_log LDebug ''Copilot raw stream event:'' []) (\<lambda>_.
     if raw_data rawEvent = Some (str ''[DONE]'') then io_return acc
     else if falsy (raw_data rawEvent) then for_await X rest fin acc
     else
       io_bind (of_result (JSON_parse X (the (raw_data rawEvent)))) (\<lambda>chunk.
       io_bind (mark (call_translateChunk chunk (fst acc))) (\<lambda>_.
       io_bind (of_result (translateChunkToAnthropicEvents X chunk (fst acc))) (\<lambda>translated.
       io_bind (mark (returned_translateChunk (fst translated))) (\<lambda>_.
       io_bind (write_events X chunk (fst translated) (snd acc)) (\<lambda>streamTracer'.
       for_await X rest fin (snd translated, streamTracer'))))))))"

text \<open>The callback given to \<open>streamSSE\<close> (lines 83 to 116).\<close>

definition stream_callback ::
  "('j, 'x) externals \<Rightarrow> 'j backend_result \<Rightarrow> jsstring option \<Rightarrow> (unit, ('j, 'x) world) io" where
  "stream_callback X response traceTimestamp =
     (let streamState = initialStreamState;
          streamTracer = new_StreamTracer traceTimestamp
      in io_bind
           (case iteration response of
              None \<Rightarrow> io_throw TypeError
            | Some it \<Rightarrow> for_await X (fst it) (snd it) (streamState, streamTracer))
           (\<lambda>done.
            io_bind (mark call_finish) (\<lambda>_.
            finish (node X) (snd done))))"

text \<open>\<open>streamSSE\<close> of hono answers with the stream and runs the callback; what the callback
  throws is logged, and the stream is closed either way.\<close>

definition streamSSE :: "(unit, ('j, 'x) world) io \<Rightarrow> ('j http_response, ('j, 'x) world) io" where
  "streamSSE cb =
     io_bind (mark call_streamSSE) (\<lambda>_.
     io_bind (try_catch (io_bind cb (\<lambda>_. io_return None)) (\<lambda>e. io_return (Some e))) (\<lambda>thrown.
     io_bind (mark (stream_closed thrown)) (\<lambda>_.
     io_return sse_response)))"

text \<open>Lines 33 to 40: the model mapping.\<close>

definition map_model ::
  "'j AnthropicMessagesPayload \<Rightarrow> ('j AnthropicMessagesPayload, ('j, 'x) world) io" where
  "map_model anthropicPayload =
     io_bind (mark call_getModelMappings) (\<lambda>_.
     io_bind getModelMappings (\<lambda>mappings. (\<lambda>w.
       if Map_size (heap w mappings) > 0
       then
         let applied = applyModelMapping (payload_model anthropicPayload) (heap w mappings)
                         (verbose (state w));
             w' = w\<lparr>consola := consola w @ snd applied\<rparr>
         in if mapped (fst applied)
            then (Inr (anthropicPayload\<lparr>payload_model := model (fst applied)\<rparr>), w')
            else (Inr anthropicPayload, w')
       else (Inr anthropicPayload, w))))"

text \<open>Lines 60 to 80: the branch of a response that is not a stream.\<close>

definition respond_json ::
  "('j, 'x) externals \<Rightarrow> 'j backend_result \<Rightarrow> jsstring option \<Rightarrow>
   ('j http_response, ('j, 'x) world) io" where
  "respond_json X response traceTimestamp =
     io_bind (consola_log LDebug ''Non-streaming response from Copilot:'' []) (\<lambda>_.
     io_bind (mark (call_translateToAnthropic (body response))) (\<lambda>_.
     io_bind (of_result (translateToAnthropic X (body response))) (\<lambda>anthropicResponse.
     io_bind (consola_log LDebug ''Translated Anthropic response:'' []) (\<lambda>_.
     io_bind (mark call_traceResponse) (\<lambda>_.
     io_bind (traceResponse (node X) (response_doc (body response) anthropicResponse)
                traceTimestamp) (\<lambda>_.
     io_bind (mark (call_json anthropicResponse)) (\<lambda>_.
     io_return (json_response anthropicResponse))))))))"

definition handleCompletion ::
  "('j, 'x) externals \<Rightarrow> 'j Context \<Rightarrow> ('j http_response, ('j, 'x) world) io" where
  "handleCompletion X c =
     io_bind (mark call_checkRateLimit) (\<lambda>_.
     io_bind (outside_io (checkRateLimit X)) (\<lambda>_.
     io_bind (mark call_req_json) (\<lambda>_.
     io_bind (of_result (req_json c)) (\<lambda>received.
     io_bind (consola_log LDebug ''Anthropic request payload:'' []) (\<lambda>_.
     io_bind (map_model received) (\<lambda>anthropicPayload.
     io_bind (mark (call_traceRequest anthropicPayload)) (\<lambda>_.
     io_bind (traceRequest (node X) (request_doc anthropicPayload)) (\<lambda>traceTimestamp.
     io_bind (mark (call_translateToOpenAI anthropicPayload)) (\<lambda>_.
     io_bind (of_result (translateToOpenAI X anthropicPayload)) (\<lambda>openAIPayload.
     io_bind (consola_log LDebug ''Translated OpenAI request payload:'' []) (\<lambda>_.
     io_bind (\<lambda>w. if manualApprove (state w)
                   then io_bind (mark call_awaitApproval) (\<lambda>_.
                        io_bind (outside_io (awaitApproval X)) (\<lambda>_.
                        mark resolved_awaitApproval)) w
                   else io_return () w) (\<lambda>_.
     io_bind (mark (call_createChatCompletions openAIPayload)) (\<lambda>_.
     io_bind (outside_io (createChatCompletions X openAIPayload)) (\<lambda>response.
     if isNonStreaming response then respond_json X response traceTimestamp
     else
       io_bind (consola_log LDebug ''Streaming response from Copilot'' []) (\<lambda>_.
       streamSSE (stream_callback X response traceTimestamp))))))))))))))))"

text \<open>The invariant of the cache: what it refers to is the map parsed from the value it
  was filled from.\<close>

definition cache_ok :: "('j, 'x) world \<Rightarrow> bool" where
  "cache_ok w \<longleftrightarrow>
     (case cachedMappings w of
        None \<Rightarrow> True
      | Some r \<Rightarrow> r < next_ref w \<and> heap w r = fst (parseModelMappings (cachedEnvValue w)))"

section \<open>Concrete worlds for the examples\<close>

definition state0 :: State where
  "state0 = \<lparr>manualApprove = True, verbose = True, traceEnabled = True,
              traceFolder = Some (str ''traces'')\<rparr>"

definition world0 :: "jsstring option \<Rightarrow> State \<Rightarrow> 'x \<Rightarrow> ('j, 'x) world" where
  "world0 env st x =
     \<lparr>process_env_MODEL_MAPPINGS = env, cachedMappings = None, cachedEnvValue = None,
      heap = (\<lambda>_. []), next_ref = 0, state = st,
      now = \<lparr>getFullYear = 2025, getMonth = 11, getDate = 4, getHours = 14, getMinutes = 30,
             getSeconds = 52, getMilliseconds = 7\<rparr>,
      consola = [], sse_out = [], outside = x, calls = []\<rparr>"

text \<open>A disk that takes every write and keeps the files, and one that refuses every write.\<close>

definition disk_ok :: "('v, (jsstring \<times> jsstring) list) node_api" where
  "disk_ok =
     \<lparr>fs_mkdir = (\<lambda>p x. (Inr (), x)),
      fs_writeFile = (\<lambda>p content x. (Inr (), x @ [(p, content)])),
      path_join = (\<lambda>a b. a @ str ''/'' @ b),
      JSON_stringify_pretty = (\<lambda>v. Inr (str ''{}''))\<rparr>"

definition disk_full :: "('v, (jsstring \<times> jsstring) list) node_api" where
  "disk_full =
     \<lparr>fs_mkdir = (\<lambda>p. io_throw (OtherError (str ''ENOSPC''))),
      fs_writeFile = (\<lambda>p content. io_throw (OtherError (str ''ENOSPC''))),
      path_join = (\<lambda>a b. a @ str ''/'' @ b),
      JSON_stringify_pretty = (\<lambda>v. Inr (str ''{}''))\<rparr>"

section \<open>Notions for the properties of the handler\<close>

text \<open>The first part of \<open>handleCompletion\<close>, lines 27 to 58: everything up to the answer of
  the backend.  \<open>handleCompletion_split\<close> below shows that the handler is this part followed
  by the branch on the answer.\<close>

definition until_response ::
  "('j, 'x) externals \<Rightarrow> 'j Context \<Rightarrow>
   (jsstring option \<times> 'j backend_result, ('j, 'x) world) io" where
  "until_response X c =
     io_bind (mark call_checkRateLimit) (\<lambda>_.
     io_bind (outside_io (checkRateLimit X)) (\<lambda>_.
     io_bind (mark call_req_json) (\<lambda>_.
     io_bind (of_result (req_json c)) (\<lambda>received.
     io_bind (consola_log LDebug ''Anthropic request payload:'' []) (\<lambda>_.
     io_bind (map_model received) (\<lambda>anthropicPayload.
     io_bind (mark (call_traceRequest anthropicPayload)) (\<lambda>_.
     io_bind (traceRequest (node X) (request_doc anthropicPayload)) (\<lambda>traceTimestamp.
     io_bind (mark (call_translateToOpenAI anthropicPayload)) (\<lambda>_.
     io_bind (of_result (translateToOpenAI X anthropicPayload)) (\<lambda>openAIPayload.
     io_bind (consola_log LDebug ''Translated OpenAI request payload:'' []) (\<lambda>_.
     io_bind (\<lambda>w. if manualApprove (state w)
                   then io_bind (mark call_awaitApproval) (\<lambda>_.
                        io_bind (outside_io (awaitApproval X)) (\<lambda>_.
                        mark resolved_awaitApproval)) w
                   else io_return () w) (\<lambda>_.
     io_bind (mark (call_createChatCompletions openAIPayload)) (\<lambda>_.
     io_bind (outside_io (createChatCompletions X openAIPayload)) (\<lambda>response.
     io_return (traceTimestamp, response)))))))))))))))"

definition respond ::
  "('j, 'x) externals \<Rightarrow> jsstring option \<times> 'j backend_result \<Rightarrow>
   ('j http_response, ('j, 'x) world) io" where
  "respond X answer =
     (if str ''choices'' \<in> set (own_props (snd answer))
      then respond_json X (snd answer) (fst answer)
      else io_bind (consola_log LDebug ''Streaming response from Copilot'' []) (\<lambda>_.
           streamSSE (stream_callback X (snd answer) (fst answer))))"

text \<open>The payload after lines 33 to 40, given the value of the environment variable, and the
  calls of a run of the first part in which nothing throws.\<close>

definition mapped_payload ::
  "('j, 'x) world \<Rightarrow> 'j AnthropicMessagesPayload \<Rightarrow> 'j AnthropicMessagesPayload" where
  "mapped_payload w p =
     p\<lparr>payload_model :=
         model (fst (applyModelMapping (payload_model p)
                       (fst (parseModelMappings (process_env_MODEL_MAPPINGS w)))
                       (verbose (state w))))\<rparr>"

definition orchestration ::
  "('j, 'x) externals \<Rightarrow> 'j Context \<Rightarrow> ('j, 'x) world \<Rightarrow> 'j call list" where
  "orchestration X c w =
     (case req_json c of
        Inl e \<Rightarrow> [call_checkRateLimit, call_req_json]
      | Inr received \<Rightarrow>
          [call_checkRateLimit, call_req_json, call_getModelMappings,
           call_traceRequest (mapped_payload w received),
           call_translateToOpenAI (mapped_payload w received)] @
          (case translateToOpenAI X (mapped_payload w received) of
             Inl e \<Rightarrow> []
           | Inr openAIPayload \<Rightarrow>
               (if manualApprove (state w) then [call_awaitApproval, resolved_awaitApproval]
                else []) @
               [call_createChatCompletions openAIPayload]))"

text \<open>Readings of the ghost log: the frames written, the events the translator returned, and
  the kinds of calls.\<close>

definition written :: "'j call list \<Rightarrow> SSEMessage list" where
  "written cs = concat (map (\<lambda>c. case c of call_writeSSE f \<Rightarrow> [f] | _ \<Rightarrow> []) cs)"

definition produced :: "'j call list \<Rightarrow> AnthropicEvent list" where
  "produced cs = concat (map (\<lambda>c. case c of returned_translateChunk es \<Rightarrow> es | _ \<Rightarrow> []) cs)"

definition translated :: "'j call list \<Rightarrow> ChatCompletionChunk list" where
  "translated cs = concat (map (\<lambda>c. case c of call_translateChunk ch s \<Rightarrow> [ch] | _ \<Rightarrow> []) cs)"

definition is_read :: "'j call \<Rightarrow> bool" where
  "is_read c = (case c of read_rawEvent r \<Rightarrow> True | _ \<Rightarrow> False)"

definition is_done_read :: "'j call \<Rightarrow> bool" where
  "is_done_read c = (case c of read_rawEvent r \<Rightarrow> raw_data r = Some (str ''[DONE]'') | _ \<Rightarrow> False)"

definition is_stream_work :: "'j call \<Rightarrow> bool" where
  "is_stream_work c =
     (case c of
        read_rawEvent r \<Rightarrow> True
      | call_translateChunk ch s \<Rightarrow> True
      | returned_translateChunk es \<Rightarrow> True
      | call_writeSSE f \<Rightarrow> True
      | _ \<Rightarrow> False)"

text \<open>A monitor for the hand-off: it walks the log with the events that were returned by the
  translator and are not yet written.  Reading the next raw event, calling the translator
  and its return are allowed only when nothing is pending; a write must be the frame of
  the first pending event.\<close>

fun pending_after ::
  "('j, 'x) externals \<Rightarrow> AnthropicEvent list \<Rightarrow> 'j call list \<Rightarrow> AnthropicEvent list option" where
  "pending_after X p [] = Some p"
| "pending_after X p (c # cs) =
     (case c of
        read_rawEvent r \<Rightarrow> if p = [] then pending_after X [] cs else None
      | call_translateChunk ch s \<Rightarrow> if p = [] then pending_after X [] cs else None
      | returned_translateChunk es \<Rightarrow> if p = [] then pending_after X es cs else None
      | call_writeSSE f \<Rightarrow>
          (case p of
             [] \<Rightarrow> None
           | e # p' \<Rightarrow> if f = frame X e then pending_after X p' cs else None)
      | _ \<Rightarrow> pending_after X p cs)"

text \<open>The state given to the first call of the translator in a log.\<close>

fun first_translate_state :: "'j call list \<Rightarrow> AnthropicStreamState option" where
  "first_translate_state [] = None"
| "first_translate_state (c # cs) =
     (case c of call_translateChunk ch s \<Rightarrow> Some s | _ \<Rightarrow> first_translate_state cs)"

definition done_last :: "'j call list \<Rightarrow> bool" where
  "done_last cs \<longleftrightarrow> (\<forall>n < length cs. is_done_read (cs ! n) \<longrightarrow> Suc n = length cs)"

text \<open>The calls of the two branches on the answer.\<close>

definition json_calls :: "('j, 'x) externals \<Rightarrow> 'j backend_result \<Rightarrow> 'j call list" where
  "json_calls X response =
     (case translateToAnthropic X (body response) of
        Inl e \<Rightarrow> [call_translateToAnthropic (body response)]
      | Inr anthropicResponse \<Rightarrow>
          [call_translateToAnthropic (body response), call_traceResponse,
           call_json anthropicResponse])"

definition stream_calls :: "'j call list \<Rightarrow> js_error option \<Rightarrow> 'j call list" where
  "stream_calls loop thrown =
     call_streamSSE # loop @ (case thrown of None \<Rightarrow> [call_finish] | Some e \<Rightarrow> []) @
     [stream_closed thrown]"

text \<open>Every data string of the raw events parses and the translator never throws.\<close>

definition well_formed :: "('j, 'x) externals \<Rightarrow> raw_event list \<Rightarrow> bool" where
  "well_formed X raws \<longleftrightarrow>
     list_all (\<lambda>raw. falsy (raw_data raw) \<or> raw_data raw = Some (str ''[DONE]'')
                 \<or> \<not> isl (JSON_parse X (the (raw_data raw)))) raws
     \<and> (\<forall>ch s. \<not> isl (translateChunkToAnthropicEvents X ch s))"

definition is_orchestration_call :: "'j call \<Rightarrow> bool" where
  "is_orchestration_call c =
     (case c of
        call_checkRateLimit \<Rightarrow> True
      | call_req_json \<Rightarrow> True
      | call_getModelMappings \<Rightarrow> True
      | call_traceRequest p \<Rightarrow> True
      | call_translateToOpenAI p \<Rightarrow> True
      | call_awaitApproval \<Rightarrow> True
      | resolved_awaitApproval \<Rightarrow> True
      | call_createChatCompletions q \<Rightarrow> True
      | _ \<Rightarrow> False)"


text \<open>The calls that precede the call of the backend.\<close>

definition before_backend ::
  "('j, 'x) world \<Rightarrow> 'j AnthropicMessagesPayload \<Rightarrow> 'j call list" where
  "before_backend w received =
     [call_checkRateLimit, call_req_json, call_getModelMappings,
      call_traceRequest (mapped_payload w received),
      call_translateToOpenAI (mapped_payload w received)] @
     (if manualApprove (state w) then [call_awaitApproval, resolved_awaitApproval] else [])"

definition trace_world :: "State \<Rightarrow> (unit, (jsstring \<times> jsstring) list) world" where
  "trace_world st = world0 None st []"

definition cache_world :: "(unit, unit) world" where
  "cache_world = world0 (Some (str ''source1:target1'')) state0 ()"

text \<open>A backend for the examples.  Its JSON values are strings; the OpenAI payload is
  represented by its model name, and \<open>JSON.parse\<close> knows two chunks.\<close>

definition chunk_text :: ChatCompletionChunk where
  "chunk_text =
     \<lparr>delta_role = None, delta_content = Some (str ''Hi''), delta_tool_calls = [],
      finish_reason = None\<rparr>"

definition chunk_stop :: ChatCompletionChunk where
  "chunk_stop =
     \<lparr>delta_role = None, delta_content = None, delta_tool_calls = [],
      finish_reason = Some (str ''stop'')\<rparr>"

definition demo_parse :: "jsstring \<Rightarrow> js_error + ChatCompletionChunk" where
  "demo_parse d =
     (if d = str ''text'' then Inr chunk_text
      else if d = str ''stop'' then Inr chunk_stop
      else Inl SyntaxError)"

definition raw_of :: "string \<Rightarrow> raw_event" where
  "raw_of s = \<lparr>raw_data = Some (str s)\<rparr>"

definition stream_of :: "raw_event list \<Rightarrow> jsstring backend_result" where
  "stream_of raws = \<lparr>own_props = [], body = [], iteration = Some (raws, Exhausted)\<rparr>"

definition json_answer :: "jsstring backend_result" where
  "json_answer =
     \<lparr>own_props = [str ''id'', str ''choices''], body = str ''{}'', iteration = None\<rparr>"

definition demo ::
  "jsstring backend_result \<Rightarrow> (jsstring, (jsstring \<times> jsstring) list) externals" where
  "demo answer =
     \<lparr>checkRateLimit = io_return (),
      translateToOpenAI = (\<lambda>p. Inr (payload_model p)),
      awaitApproval = io_return (),
      createChatCompletions = (\<lambda>q. io_return answer),
      translateToAnthropic = (\<lambda>r. Inr r),
      translateChunkToAnthropicEvents = (\<lambda>chunk st. Inr (translateChunk_spec chunk st)),
      JSON_parse = demo_parse,
      JSON_stringify = event_type,
      node = disk_ok\<rparr>"

definition demo_request :: "jsstring Context" where
  "demo_request = \<lparr>req_json = Inr \<lparr>payload_model = str ''claude-sonnet-4'', payload_rest = []\<rparr>\<rparr>"

definition demo_world :: "(jsstring, (jsstring \<times> jsstring) list) world" where
  "demo_world = world0 (Some (str ''claude-sonnet-4:claude-opus-4'')) state0 []"

section \<open>Properties\<close>

lemma trim_hd: "trim s \<noteq> [] \<Longrightarrow> \<not> isWhiteSpace (hd (trim s))"
proof -
  assume ne: "trim s \<noteq> []"
  let ?d = "dropWhile isWhiteSpace s"
  have d: "?d \<noteq> []"
  proof
    assume e: "?d = []"
    have "trim s = []" unfolding trim_def by (simp only: e rev.simps dropWhile.simps)
    with ne show False by simp
  qed
  then have h: "\<not> isWhiteSpace (hd ?d)" by (simp add: hd_dropWhile)
  let ?r = "dropWhile isWhiteSpace (rev ?d)"
  have r: "?r \<noteq> []" using ne by (simp add: trim_def)
  have "\<exists>ys. rev ?d = ys @ ?r"
    by (metis takeWhile_dropWhile_id)
  then obtain ys where "rev ?d = ys @ ?r" ..
  then have "?d = rev ?r @ rev ys" by (metis rev_append rev_rev_ident)
  then have "hd ?d = hd (rev ?r)" using r by (metis hd_append2 rev_is_Nil_conv)
  then show ?thesis using h by (simp add: trim_def)
qed

lemma trim_last: "trim s \<noteq> [] \<Longrightarrow> \<not> isWhiteSpace (last (trim s))"
proof -
  assume ne: "trim s \<noteq> []"
  let ?r = "dropWhile isWhiteSpace (rev (dropWhile isWhiteSpace s))"
  have r: "?r \<noteq> []" using ne by (simp add: trim_def)
  then have "\<not> isWhiteSpace (hd ?r)" by (simp add: hd_dropWhile)
  then show ?thesis using r by (simp add: trim_def last_rev)
qed

lemma trim_trimmed: "trim s \<noteq> [] \<Longrightarrow> trimmed (trim s)"
  by (simp add: trimmed_def trim_hd trim_last)

lemma indexOf_ge: "- 1 \<le> indexOf s c"
  by (induction s) (auto simp: Let_def)

lemma indexOf_absent: "indexOf s c = - 1 \<longleftrightarrow> c \<notin> set s"
proof (induction s)
  case Nil
  then show ?case by simp
next
  case (Cons x xs)
  have "- 1 \<le> indexOf xs c" by (rule indexOf_ge)
  with Cons show ?case by (auto simp: Let_def)
qed

lemma indexOf_first: "c \<in> set s \<Longrightarrow> indexOf s c = int (length (takeWhile (\<lambda>x. x \<noteq> c) s))"
  by (induction s) (auto simp: Let_def indexOf_absent)

lemma slice_prefix: "0 \<le> i \<Longrightarrow> slice s 0 i = take (nat i) s"
  by (auto simp: slice_def Let_def min_def)

lemma slice_from_suffix: "0 \<le> i \<Longrightarrow> slice_from s i = drop (nat i) s"
  by (auto simp: slice_from_def slice_def Let_def min_def)

lemma take_first: "take (length (takeWhile P s)) s = takeWhile P s"
  by (induction s) auto

lemma drop_first: "drop (Suc (length (takeWhile P s))) s = drop 1 (dropWhile P s)"
  by (induction s) auto

lemma parse_pair_fst:
  "fst (parse_pair (m, ws) pair) =
     (let t = trim pair;
          source = trim (takeWhile (\<lambda>c. c \<noteq> colon) t);
          target = trim (drop 1 (dropWhile (\<lambda>c. c \<noteq> colon) t))
      in if colon \<notin> set t \<or> source = [] \<or> target = [] then m
         else Map_set source target m)"
proof (cases "colon \<in> set (trim pair)")
  case False
  then show ?thesis by (auto simp: parse_pair_def Let_def indexOf_absent)
next
  case True
  let ?t = "trim pair"
  have i: "indexOf ?t colon = int (length (takeWhile (\<lambda>c. c \<noteq> colon) ?t))"
    using True by (rule indexOf_first)
  have ne: "?t \<noteq> []" using True by auto
  have a: "slice ?t 0 (indexOf ?t colon) = takeWhile (\<lambda>c. c \<noteq> colon) ?t"
    by (simp add: i slice_prefix take_first)
  have b: "slice_from ?t (indexOf ?t colon + 1) = drop 1 (dropWhile (\<lambda>c. c \<noteq> colon) ?t)"
    using drop_first [of "\<lambda>c. c \<noteq> colon" ?t]
    by (simp add: i slice_from_suffix nat_add_distrib)
  have n: "indexOf ?t colon \<noteq> - 1" using True by (simp add: indexOf_absent)
  show ?thesis
    using True ne n by (simp add: parse_pair_def Let_def a b)
qed

lemma parse_pair_entry: "fst (parse_pair acc pair) = parse_entry (fst acc) pair"
  by (cases acc) (simp add: parse_entry_def parse_pair_fst)

lemma foldl_parse_pair:
  "fst (foldl parse_pair acc ps) = foldl parse_entry (fst acc) ps"
  by (induction ps arbitrary: acc) (simp_all add: parse_pair_entry)

lemma update_all:
  "\<forall>(k, v) \<in> set m. P k v \<Longrightarrow> P a b \<Longrightarrow> \<forall>(k, v) \<in> set (AList.update a b m). P k v"
  by (induction m) (auto split: if_splits)

lemma parse_entry_trimmed:
  assumes "\<forall>(k, v) \<in> set m. trimmed k \<and> trimmed v"
  shows "\<forall>(k, v) \<in> set (parse_entry m pair). trimmed k \<and> trimmed v"
proof -
  let ?t = "trim pair"
  let ?s = "trim (takeWhile (\<lambda>c. c \<noteq> colon) ?t)"
  let ?g = "trim (drop 1 (dropWhile (\<lambda>c. c \<noteq> colon) ?t))"
  show ?thesis
  proof (cases "colon \<notin> set ?t \<or> ?s = [] \<or> ?g = []")
    case True
    then have "parse_entry m pair = m"
      unfolding parse_entry_def parse_pair_fst Let_def by simp
    with assms show ?thesis by simp
  next
    case False
    then have e: "parse_entry m pair = AList.update ?s ?g m"
      unfolding parse_entry_def parse_pair_fst Let_def Map_set_def by simp
    from False have "trimmed ?s \<and> trimmed ?g" by (simp add: trim_trimmed)
    with assms show ?thesis unfolding e by (intro update_all) auto
  qed
qed

lemma foldl_parse_entry_trimmed:
  "\<forall>(k, v) \<in> set m. trimmed k \<and> trimmed v \<Longrightarrow>
   \<forall>(k, v) \<in> set (foldl parse_entry m ps). trimmed k \<and> trimmed v"
proof (induction ps arbitrary: m)
  case Nil
  then show ?case by simp
next
  case (Cons p ps)
  from Cons.prems have "\<forall>(k, v) \<in> set (parse_entry m p). trimmed k \<and> trimmed v"
    by (rule parse_entry_trimmed)
  then have "\<forall>(k, v) \<in> set (foldl parse_entry (parse_entry m p) ps). trimmed k \<and> trimmed v"
    by (rule Cons.IH)
  then show ?case by simp
qed

lemma comma_not_ws: "\<not> isWhiteSpace comma"
  by (simp add: isWhiteSpace_def comma_def)

lemma trim_Nil_all_ws: "trim s = [] \<Longrightarrow> \<forall>c \<in> set s. isWhiteSpace c"
proof -
  assume "trim s = []"
  then have "dropWhile isWhiteSpace (rev (dropWhile isWhiteSpace s)) = []"
    by (simp only: trim_def rev_is_Nil_conv)
  then have "\<forall>c \<in> set (dropWhile isWhiteSpace s). isWhiteSpace c"
    by (simp add: dropWhile_eq_Nil_conv)
  then have "dropWhile isWhiteSpace s = []"
    by (metis hd_dropWhile hd_in_set)
  then show ?thesis by (simp add: dropWhile_eq_Nil_conv)
qed

lemma js_split_no_sep: "sep \<notin> set s \<Longrightarrow> js_split sep s = [s]"
  by (induction s) auto

lemma parse_entry_blank: "trim p = [] \<Longrightarrow> parse_entry m p = m"
  by (simp add: parse_entry_def parse_pair_def Let_def)

lemma parseModelMappings_fold:
  "fst (parseModelMappings (Some v)) = foldl parse_entry [] (js_split comma v)"
proof (cases "trim v = []")
  case True
  then have "comma \<notin> set v" using trim_Nil_all_ws comma_not_ws by blast
  then have "js_split comma v = [v]" by (rule js_split_no_sep)
  with True show ?thesis by (simp add: parseModelMappings_def parse_entry_blank)
next
  case False
  then have "v \<noteq> []" by (auto simp: trim_def)
  with False show ?thesis by (simp add: parseModelMappings_def foldl_parse_pair)
qed

lemma js_split_ne: "js_split sep s \<noteq> []"
  by (induction s) (auto split: list.splits)

lemma join_Cons: "join sep ((c # p) # ps) = c # join sep (p # ps)"
  by (cases ps) auto

lemma js_split_join: "join sep (js_split sep s) = s"
proof (induction s)
  case Nil
  then show ?case by simp
next
  case (Cons c cs)
  obtain p ps where e: "js_split sep cs = p # ps"
    using js_split_ne [of sep cs] by (cases "js_split sep cs") auto
  with Cons show ?case by (simp add: join_Cons)
qed

lemma js_split_pieces: "\<forall>p \<in> set (js_split sep s). sep \<notin> set p"
  by (induction s) (auto split: list.splits)

text \<open>
  C8.  For every value of the environment variable, also when it is undefined, every key
  and every value of the map that \<open>parseModelMappings\<close> returns is a non-empty string
  that neither starts nor ends with white space.  The map is built from the pieces between
  the commas, in order, by \<open>parse_entry\<close>; a piece without a colon, with an empty source
  or with an empty target leaves the map as it is, and any other piece is split at its first
  colon: the source is what stands before it and the target all that follows, further
  colons included.
\<close>

theorem parseModelMappings_entries:
  "(\<forall>(k, v) \<in> set (fst (parseModelMappings envValue)). trimmed k \<and> trimmed v)
   \<and> fst (parseModelMappings None) = []
   \<and> fst (parseModelMappings (Some s)) = foldl parse_entry [] (js_split comma s)
   \<and> join comma (js_split comma s) = s
   \<and> (\<forall>p \<in> set (js_split comma s). comma \<notin> set p)
   \<and> parse_entry m pair =
       (let t = trim pair;
            source = trim (takeWhile (\<lambda>c. c \<noteq> colon) t);
            target = trim (drop 1 (dropWhile (\<lambda>c. c \<noteq> colon) t))
        in if colon \<notin> set t \<or> source = [] \<or> target = [] then m
           else Map_set source target m)"
proof -
  have "\<forall>(k, v) \<in> set (fst (parseModelMappings envValue)). trimmed k \<and> trimmed v"
  proof (cases envValue)
    case None
    then show ?thesis by (simp add: parseModelMappings_def)
  next
    case (Some v)
    show ?thesis
      unfolding Some parseModelMappings_fold
      by (rule foldl_parse_entry_trimmed) simp
  qed
  moreover have "fst (parseModelMappings None) = []"
    by (simp add: parseModelMappings_def)
  ultimately show ?thesis
    using parseModelMappings_fold js_split_join js_split_pieces
    by (simp add: parse_entry_def parse_pair_fst)
qed

theorem parseModelMappings_entries_witness:
  "fst (parseModelMappings (Some (str '' a:b:c , x, :y, z: ,v : w,''))) =
     [(str ''a'', str ''b:c''), (str ''v'', str ''w'')]
   \<and> trimmed (str ''a'') \<and> trimmed (str ''b:c'')
   \<and> parse_entry [] (str ''x'') = []
   \<and> parse_entry [] (str '':y'') = []
   \<and> parse_entry [] (str ''z: '') = []
   \<and> parse_entry [] (str '' a:b:c '') = [(str ''a'', str ''b:c'')]"
  using parseModelMappings_entries
    [of "Some (str '' a:b:c , x, :y, z: ,v : w,'')" "str '' a:b:c , x, :y, z: ,v : w,''"
        "[]" "str '' a:b:c ''"]
  by code_simp

lemma getModelMappings_hit:
  "cachedMappings w = Some r \<Longrightarrow> cachedEnvValue w = process_env_MODEL_MAPPINGS w \<Longrightarrow>
   getModelMappings w = (Inr r, w)"
  by (simp add: getModelMappings_def)

lemma getModelMappings_miss_eq:
  assumes "\<not> (cachedMappings w \<noteq> None \<and> cachedEnvValue w = process_env_MODEL_MAPPINGS w)"
  shows "getModelMappings w =
    (Inr (next_ref w),
     if 0 < Map_size (fst (parseModelMappings (process_env_MODEL_MAPPINGS w)))
     then w\<lparr>cachedEnvValue := process_env_MODEL_MAPPINGS w, cachedMappings := Some (next_ref w),
            heap := (heap w)(next_ref w := fst (parseModelMappings (process_env_MODEL_MAPPINGS w))),
            next_ref := Suc (next_ref w),
            consola := consola w @ snd (parseModelMappings (process_env_MODEL_MAPPINGS w))\<rparr>
          \<lparr>consola := consola
             (w\<lparr>cachedEnvValue := process_env_MODEL_MAPPINGS w, cachedMappings := Some (next_ref w),
            heap := (heap w)(next_ref w := fst (parseModelMappings (process_env_MODEL_MAPPINGS w))),
            next_ref := Suc (next_ref w),
            consola := consola w @ snd (parseModelMappings (process_env_MODEL_MAPPINGS w))\<rparr>) @
             [Log LInfo ''Loaded model mapping(s)''
               [N (Map_size (fst (parseModelMappings (process_env_MODEL_MAPPINGS w))))]]\<rparr>
     else w\<lparr>cachedEnvValue := process_env_MODEL_MAPPINGS w, cachedMappings := Some (next_ref w),
            heap := (heap w)(next_ref w := fst (parseModelMappings (process_env_MODEL_MAPPINGS w))),
            next_ref := Suc (next_ref w),
            consola := consola w @ snd (parseModelMappings (process_env_MODEL_MAPPINGS w))\<rparr>)"
  unfolding getModelMappings_def Let_def by (rule if_not_P) (rule assms)

lemma getModelMappings_miss:
  assumes "cachedMappings w = None \<or> cachedEnvValue w \<noteq> process_env_MODEL_MAPPINGS w"
  shows "fst (getModelMappings w) = Inr (next_ref w)"
    and "heap (snd (getModelMappings w)) =
           (heap w)(next_ref w := fst (parseModelMappings (process_env_MODEL_MAPPINGS w)))"
    and "cachedMappings (snd (getModelMappings w)) = Some (next_ref w)"
    and "cachedEnvValue (snd (getModelMappings w)) = process_env_MODEL_MAPPINGS w"
    and "process_env_MODEL_MAPPINGS (snd (getModelMappings w)) = process_env_MODEL_MAPPINGS w"
    and "next_ref (snd (getModelMappings w)) = Suc (next_ref w)"
proof -
  from assms
  have n: "\<not> (cachedMappings w \<noteq> None \<and> cachedEnvValue w = process_env_MODEL_MAPPINGS w)"
    by auto
  note e = getModelMappings_miss_eq [OF n]
  show "fst (getModelMappings w) = Inr (next_ref w)" by (simp add: e)
  show "heap (snd (getModelMappings w)) =
           (heap w)(next_ref w := fst (parseModelMappings (process_env_MODEL_MAPPINGS w)))"
    by (simp add: e)
  show "cachedMappings (snd (getModelMappings w)) = Some (next_ref w)" by (simp add: e)
  show "cachedEnvValue (snd (getModelMappings w)) = process_env_MODEL_MAPPINGS w" by (simp add: e)
  show "process_env_MODEL_MAPPINGS (snd (getModelMappings w)) = process_env_MODEL_MAPPINGS w"
    by (simp add: e)
  show "next_ref (snd (getModelMappings w)) = Suc (next_ref w)" by (simp add: e)
qed

lemma getModelMappings_result:
  assumes "cache_ok w"
  shows "\<exists>r w1. getModelMappings w = (Inr r, w1)
     \<and> heap w1 r = fst (parseModelMappings (process_env_MODEL_MAPPINGS w))
     \<and> cachedMappings w1 = Some r \<and> cachedEnvValue w1 = process_env_MODEL_MAPPINGS w
     \<and> process_env_MODEL_MAPPINGS w1 = process_env_MODEL_MAPPINGS w
     \<and> r < next_ref w1"
proof (cases "cachedMappings w = None \<or> cachedEnvValue w \<noteq> process_env_MODEL_MAPPINGS w")
  case False
  then obtain r where r: "cachedMappings w = Some r"
    and e: "cachedEnvValue w = process_env_MODEL_MAPPINGS w" by auto
  from r e have "getModelMappings w = (Inr r, w)" by (rule getModelMappings_hit)
  moreover from assms r e
  have "heap w r = fst (parseModelMappings (process_env_MODEL_MAPPINGS w))" "r < next_ref w"
    by (simp_all add: cache_ok_def)
  ultimately show ?thesis using r e by simp
next
  case True
  let ?w = "snd (getModelMappings w)"
  have "getModelMappings w = (Inr (next_ref w), ?w)"
    using getModelMappings_miss(1) [OF True] by (simp add: prod_eq_iff)
  then show ?thesis
    using getModelMappings_miss(2-6) [OF True]
    by (intro exI [of _ "next_ref w"] exI [of _ ?w]) simp
qed

lemma getModelMappings_cache_ok: "cache_ok w \<Longrightarrow> cache_ok (snd (getModelMappings w))"
proof -
  assume "cache_ok w"
  then obtain r w1 where "getModelMappings w = (Inr r, w1)"
     "heap w1 r = fst (parseModelMappings (process_env_MODEL_MAPPINGS w))"
     "cachedMappings w1 = Some r" "cachedEnvValue w1 = process_env_MODEL_MAPPINGS w"
     "r < next_ref w1"
    using getModelMappings_result by blast
  then show ?thesis by (simp add: cache_ok_def)
qed

lemma reachable_cache_ok: "reachable w \<Longrightarrow> cache_ok w"
proof (induction rule: reachable.induct)
  case (start w)
  then show ?case by (simp add: cache_ok_def)
next
  case (get w)
  from get.IH show ?case by (rule getModelMappings_cache_ok)
next
  case (clear w)
  show ?case by (simp add: cache_ok_def clearModelMappingsCache_def)
next
  case (setenv w v)
  then show ?case by (simp add: cache_ok_def split: option.splits)
next
  case (other w w')
  then show ?case by (simp add: cache_ok_def split: option.splits)
qed

text \<open>
  C9.  In every state the module can reach, \<open>getModelMappings\<close> returns a reference to a
  map that equals \<open>parseModelMappings\<close> of the current value of the environment variable.
  A second call, with the variable unchanged, returns the same reference and changes
  nothing: no map is allocated and nothing is logged.  After the variable has changed, the
  next call returns a new reference, to the map parsed from the new value, and leaves the
  earlier map as it was.
\<close>

theorem getModelMappings_cached:
  assumes "reachable w"
  shows "\<exists>r w1. getModelMappings w = (Inr r, w1)
           \<and> heap w1 r = fst (parseModelMappings (process_env_MODEL_MAPPINGS w))
           \<and> getModelMappings w1 = (Inr r, w1)
           \<and> (\<forall>v. v \<noteq> process_env_MODEL_MAPPINGS w \<longrightarrow>
                (\<exists>r' w2. getModelMappings (w1\<lparr>process_env_MODEL_MAPPINGS := v\<rparr>) = (Inr r', w2)
                   \<and> r' \<noteq> r
                   \<and> heap w2 r' = fst (parseModelMappings v)
                   \<and> heap w2 r = heap w1 r))"
proof -
  from assms have "cache_ok w" by (rule reachable_cache_ok)
  then obtain r w1 where 1: "getModelMappings w = (Inr r, w1)"
    and 2: "heap w1 r = fst (parseModelMappings (process_env_MODEL_MAPPINGS w))"
    and 3: "cachedMappings w1 = Some r" "cachedEnvValue w1 = process_env_MODEL_MAPPINGS w"
       "process_env_MODEL_MAPPINGS w1 = process_env_MODEL_MAPPINGS w"
    and 4: "r < next_ref w1"
    using getModelMappings_result by blast
  have 5: "getModelMappings w1 = (Inr r, w1)"
    using 3 by (simp add: getModelMappings_hit)
  have 6: "\<exists>r' w2. getModelMappings (w1\<lparr>process_env_MODEL_MAPPINGS := v\<rparr>) = (Inr r', w2)
                   \<and> r' \<noteq> r \<and> heap w2 r' = fst (parseModelMappings v) \<and> heap w2 r = heap w1 r"
    if "v \<noteq> process_env_MODEL_MAPPINGS w" for v
  proof -
    let ?w = "w1\<lparr>process_env_MODEL_MAPPINGS := v\<rparr>"
    have m: "cachedMappings ?w = None \<or> cachedEnvValue ?w \<noteq> process_env_MODEL_MAPPINGS ?w"
      using that 3 by auto
    have "getModelMappings ?w = (Inr (next_ref ?w), snd (getModelMappings ?w))"
      using getModelMappings_miss(1) [OF m] by (simp add: prod_eq_iff)
    moreover have "next_ref ?w \<noteq> r" using 4 by simp
    moreover have "heap (snd (getModelMappings ?w)) (next_ref ?w) = fst (parseModelMappings v)"
      using getModelMappings_miss(2) [OF m] by simp
    moreover have "heap (snd (getModelMappings ?w)) r = heap w1 r"
      using getModelMappings_miss(2) [OF m] 4 by simp
    ultimately show ?thesis by blast
  qed
  from 1 2 5 6 show ?thesis by blast
qed

theorem getModelMappings_cached_witness:
  "reachable (cache_world)
   \<and> fst (getModelMappings (cache_world)) = Inr 0
   \<and> heap (snd (getModelMappings (cache_world))) 0 =
       [(str ''source1'', str ''target1'')]
   \<and> (\<exists>r w1. getModelMappings (cache_world) = (Inr r, w1)
         \<and> getModelMappings w1 = (Inr r, w1))"
proof -
  let ?w = "cache_world"
  have r: "reachable ?w"
    by (rule reachable.start) (simp_all add: world0_def cache_world_def)
  have 1: "fst (getModelMappings ?w) = Inr 0"
    by code_simp
  have 2: "heap (snd (getModelMappings ?w)) 0 = [(str ''source1'', str ''target1'')]"
    by code_simp
  from getModelMappings_cached [OF r] r 1 2 show ?thesis by blast
qed

text \<open>
  C7.  Whatever the file system and \<open>JSON.stringify\<close> do, none of \<open>traceRequest\<close>,
  \<open>traceResponse\<close>, \<open>ensureTraceFolder\<close> and \<open>StreamTracer.finish\<close> throws.
  \<open>traceRequest\<close> returns null when tracing is disabled, when no trace folder is
  configured, when the request cannot be serialised and when the write fails; otherwise it
  returns the timestamp.  The other three return normally.
\<close>

theorem tracer_never_throws:
  "fst (traceRequest A request w) =
     Inr (if \<not> traceEnabled (state w) \<or> falsy (traceFolder (state w)) then None
          else case JSON_stringify_pretty A (plain request) of
                 Inl e \<Rightarrow> None
               | Inr content \<Rightarrow>
                   (case fst (fs_writeFile A
                                (path_join A (the (traceFolder (state w)))
                                   (getTimestamp (now w) @ str ''.req''))
                                content (outside w)) of
                      Inl e \<Rightarrow> None
                    | Inr u \<Rightarrow> Some (getTimestamp (now w))))
   \<and> fst (traceResponse A response ts w) = Inr ()
   \<and> fst (ensureTraceFolder A w) = Inr ()
   \<and> fst (finish A t w) = Inr ()"
proof -
  have 1: "fst (traceRequest A request w) =
     Inr (if \<not> traceEnabled (state w) \<or> falsy (traceFolder (state w)) then None
          else case JSON_stringify_pretty A (plain request) of
                 Inl e \<Rightarrow> None
               | Inr content \<Rightarrow>
                   (case fst (fs_writeFile A
                                (path_join A (the (traceFolder (state w)))
                                   (getTimestamp (now w) @ str ''.req''))
                                content (outside w)) of
                      Inl e \<Rightarrow> None
                    | Inr u \<Rightarrow> Some (getTimestamp (now w))))"
    by (simp add: traceRequest_def try_catch_def io_bind_def of_result_def outside_io_def
        consola_log_def io_return_def Let_def split: sum.splits prod.splits)
  have 2: "fst (traceResponse A response ts w) = Inr ()"
    by (simp add: traceResponse_def try_catch_def io_bind_def of_result_def outside_io_def
        consola_log_def io_return_def Let_def split: sum.splits prod.splits)
  have 3: "fst (ensureTraceFolder A w) = Inr ()"
    by (simp add: ensureTraceFolder_def try_catch_def io_bind_def of_result_def outside_io_def
        consola_log_def io_return_def Let_def split: sum.splits prod.splits)
  have 4: "fst (finish A t w) = Inr ()"
    by (simp add: finish_def try_catch_def io_bind_def of_result_def outside_io_def
        consola_log_def io_return_def Let_def split: sum.splits prod.splits)
  from 1 2 3 4 show ?thesis by simp
qed

theorem tracer_never_throws_witness:
  "fst (traceRequest disk_full (0::nat) (trace_world state0)) = Inr None
   \<and> fst (traceRequest disk_ok (0::nat) (trace_world state0)) = Inr (Some (str ''20251204_143052_007''))
   \<and> outside (snd (traceRequest disk_ok (0::nat) (trace_world state0))) =
       [(str ''traces/20251204_143052_007.req'', str ''{}'')]
   \<and> fst (traceRequest disk_ok (0::nat) (trace_world (state0\<lparr>traceEnabled := False\<rparr>))) = Inr None
   \<and> fst (traceRequest disk_ok (0::nat) (trace_world (state0\<lparr>traceFolder := None\<rparr>))) = Inr None
   \<and> fst (traceResponse disk_full (0::nat) (Some (str ''t'')) (trace_world state0)) = Inr ()
   \<and> fst (ensureTraceFolder (disk_full :: (nat, (jsstring \<times> jsstring) list) node_api)
            (trace_world state0)) = Inr ()
   \<and> fst (finish disk_full \<lparr>chunks = [0::nat], timestamp = Some (str ''t'')\<rparr> (trace_world state0)) = Inr ()"
proof -
  have a: "fst (traceRequest disk_ok (0::nat) (trace_world state0)) = Inr (Some (str ''20251204_143052_007''))"
    by code_simp
  have b: "outside (snd (traceRequest disk_ok (0::nat) (trace_world state0))) =
       [(str ''traces/20251204_143052_007.req'', str ''{}'')]"
    by code_simp
  have c: "fst (traceRequest disk_full (0::nat) (trace_world state0)) = Inr None"
    "fst (traceRequest disk_ok (0::nat) (trace_world (state0\<lparr>traceEnabled := False\<rparr>))) = Inr None"
    "fst (traceRequest disk_ok (0::nat) (trace_world (state0\<lparr>traceFolder := None\<rparr>))) = Inr None"
    by code_simp+
  show ?thesis
    using a b c
      tracer_never_throws [of disk_full "0::nat" "trace_world state0" "0::nat" "Some (str ''t'')"
        "\<lparr>chunks = [0::nat], timestamp = Some (str ''t'')\<rparr>"]
    by simp
qed

section \<open>Running computations\<close>

lemma io_bind_assoc: "io_bind (io_bind m f) g = io_bind m (\<lambda>x. io_bind (f x) g)"
  by (auto simp: io_bind_def fun_eq_iff split: prod.splits sum.splits)

lemma io_bind_return: "io_bind m io_return = m"
  by (auto simp: io_bind_def io_return_def fun_eq_iff split: prod.splits sum.splits)

lemma io_return_bind: "io_bind (io_return x) f = f x"
  by (simp add: io_bind_def io_return_def)

lemma io_bind_if:
  "io_bind (\<lambda>w. if b w then m w else n w) f = (\<lambda>w. if b w then io_bind m f w else io_bind n f w)"
  by (auto simp: io_bind_def fun_eq_iff)

lemma handleCompletion_split: "handleCompletion X c = io_bind (until_response X c) (respond X)"
  by (simp add: handleCompletion_def until_response_def respond_def[abs_def] io_bind_assoc
      io_return_bind isNonStreaming_def cong: if_cong)

lemma io_bindE:
  assumes "io_bind m f w = (r, w')"
  obtains (throws) e where "m w = (Inl e, w')" and "r = Inl e"
        | (returns) x w1 where "m w = (Inr x, w1)" and "f x w1 = (r, w')"
  using assms by (auto simp: io_bind_def split: prod.splits sum.splits)

lemma mark_run [simp]: "mark c w = (r, w') \<longleftrightarrow> r = Inr () \<and> w' = w\<lparr>calls := calls w @ [c]\<rparr>"
  by (auto simp: mark_def)

lemma consola_log_run [simp]:
  "consola_log l t a w = (r, w') \<longleftrightarrow> r = Inr () \<and> w' = w\<lparr>consola := consola w @ [Log l t a]\<rparr>"
  by (auto simp: consola_log_def)

lemma of_result_run [simp]: "of_result x w = (r, w') \<longleftrightarrow> r = x \<and> w' = w"
  by (auto simp: of_result_def)

lemma io_return_run [simp]: "io_return x w = (r, w') \<longleftrightarrow> r = Inr x \<and> w' = w"
  by (auto simp: io_return_def)

lemma io_throw_run [simp]: "io_throw e w = (r, w') \<longleftrightarrow> r = Inl e \<and> w' = w"
  by (auto simp: io_throw_def)

lemma writeSSE_run [simp]:
  "writeSSE f w = (r, w') \<longleftrightarrow> r = Inr () \<and> w' = w\<lparr>sse_out := sse_out w @ [f]\<rparr>"
  by (auto simp: writeSSE_def)

lemma outside_io_run [simp]:
  "outside_io m w = (r, w') \<longleftrightarrow> r = fst (m (outside w)) \<and> w' = w\<lparr>outside := snd (m (outside w))\<rparr>"
  by (auto simp: outside_io_def split: prod.splits)

lemma addChunk_run:
  "addChunk v t w = (r, w') \<Longrightarrow> w' = w \<and> (\<exists>t'. r = Inr t' \<and> timestamp t' = timestamp t)"
  by (auto simp: addChunk_def split: if_splits)

text \<open>What the functions of the tracer and of the mapping module leave as it is.\<close>

definition untouched :: "('j, 'x) world \<Rightarrow> ('j, 'x) world \<Rightarrow> bool" where
  "untouched w w' \<longleftrightarrow>
     calls w' = calls w \<and> state w' = state w \<and> sse_out w' = sse_out w \<and> now w' = now w \<and>
     process_env_MODEL_MAPPINGS w' = process_env_MODEL_MAPPINGS w"

lemma traceRequest_untouched: "traceRequest A v w = (r, w') \<Longrightarrow> untouched w w'"
  by (auto simp: traceRequest_def untouched_def try_catch_def Let_def
      elim!: io_bindE split: if_splits prod.splits sum.splits)

lemma traceResponse_untouched: "traceResponse A v ts w = (r, w') \<Longrightarrow> untouched w w'"
  by (auto simp: traceResponse_def untouched_def try_catch_def Let_def
      elim!: io_bindE split: if_splits prod.splits sum.splits)

lemma finish_untouched: "finish A t w = (r, w') \<Longrightarrow> untouched w w'"
  by (auto simp: finish_def untouched_def try_catch_def Let_def
      elim!: io_bindE split: if_splits prod.splits sum.splits)

lemma getModelMappings_untouched: "getModelMappings w = (r, w') \<Longrightarrow> untouched w w'"
  by (auto simp: getModelMappings_def untouched_def Let_def split: if_splits)

lemma applyModelMapping_unmapped:
  "\<not> mapped (fst (applyModelMapping m M v)) \<Longrightarrow> model (fst (applyModelMapping m M v)) = m"
  by (auto simp: applyModelMapping_def split: option.splits if_splits)

lemma applyModelMapping_empty: "model (fst (applyModelMapping m [] v)) = m"
  by (simp add: applyModelMapping_def Map_get_def)

lemma cache_ok_cong:
  "cachedMappings w' = cachedMappings w \<Longrightarrow> cachedEnvValue w' = cachedEnvValue w \<Longrightarrow>
   heap w' = heap w \<Longrightarrow> next_ref w' = next_ref w \<Longrightarrow> cache_ok w' = cache_ok w"
  by (simp add: cache_ok_def split: option.splits)

lemma getModelMappings_outside: "getModelMappings w = (r, w') \<Longrightarrow> outside w' = outside w"
  by (auto simp: getModelMappings_def Let_def split: if_splits)

lemma map_model_run:
  assumes run: "map_model p w = (r, w')" and ok: "cache_ok w"
  shows "r = Inr (mapped_payload w p) \<and> calls w' = calls w @ [call_getModelMappings]
         \<and> state w' = state w \<and> sse_out w' = sse_out w \<and> outside w' = outside w"
proof -
  let ?w0 = "w\<lparr>calls := calls w @ [call_getModelMappings]\<rparr>"
  have "cache_ok ?w0 = cache_ok w" by (rule cache_ok_cong) simp_all
  with ok have ok0: "cache_ok ?w0" by simp
  then obtain a w1 where g: "getModelMappings ?w0 = (Inr a, w1)"
    and h: "heap w1 a = fst (parseModelMappings (process_env_MODEL_MAPPINGS ?w0))"
    using getModelMappings_result by blast
  from g have u: "untouched ?w0 w1" by (rule getModelMappings_untouched)
  have o: "outside w1 = outside w"
    using getModelMappings_outside [OF g] by simp
  let ?M = "fst (parseModelMappings (process_env_MODEL_MAPPINGS w))"
  let ?ap = "applyModelMapping (payload_model p) ?M (verbose (state w))"
  from h have h': "heap w1 a = ?M" by simp
  have s: "state w1 = state w" "calls w1 = calls w @ [call_getModelMappings]"
    "sse_out w1 = sse_out w"
    using u by (simp_all add: untouched_def)
  have e: "(r, w') =
      (if Map_size ?M > 0
       then if mapped (fst ?ap)
            then (Inr (p\<lparr>payload_model := model (fst ?ap)\<rparr>), w1\<lparr>consola := consola w1 @ snd ?ap\<rparr>)
            else (Inr p, w1\<lparr>consola := consola w1 @ snd ?ap\<rparr>)
       else (Inr p, w1))"
    using run g by (simp add: map_model_def io_bind_def mark_def h' s Let_def cong: if_cong)
  have m: "mapped_payload w p = (if Map_size ?M > 0 \<and> mapped (fst ?ap)
              then p\<lparr>payload_model := model (fst ?ap)\<rparr> else p)"
    by (auto simp: mapped_payload_def applyModelMapping_unmapped Map_size_def
        applyModelMapping_empty)
  from e m s o show ?thesis by (auto split: if_splits)
qed



lemma cache_ok_updates [simp]:
  "cache_ok (w\<lparr>calls := cs\<rparr>) = cache_ok w"
  "cache_ok (w\<lparr>consola := l\<rparr>) = cache_ok w"
  "cache_ok (w\<lparr>outside := x\<rparr>) = cache_ok w"
  "cache_ok (w\<lparr>sse_out := fs\<rparr>) = cache_ok w"
  by (rule cache_ok_cong; simp)+

lemma mapped_payload_updates:
  "mapped_payload (w\<lparr>calls := cs\<rparr>) = mapped_payload w"
  "mapped_payload (w\<lparr>consola := l\<rparr>) = mapped_payload w"
  "mapped_payload (w\<lparr>outside := x\<rparr>) = mapped_payload w"
  "mapped_payload (w\<lparr>sse_out := fs\<rparr>) = mapped_payload w"
  by (simp_all add: mapped_payload_def fun_eq_iff)

lemma bind_mark: "io_bind (mark c) f w = f () (w\<lparr>calls := calls w @ [c]\<rparr>)"
  by (simp add: io_bind_def mark_def)

lemma bind_log:
  "io_bind (consola_log l t a) f w = f () (w\<lparr>consola := consola w @ [Log l t a]\<rparr>)"
  by (simp add: io_bind_def consola_log_def)

lemma bind_of_result:
  "io_bind (of_result x) f w = (case x of Inl e \<Rightarrow> (Inl e, w) | Inr v \<Rightarrow> f v w)"
  by (simp add: io_bind_def of_result_def split: sum.splits)

lemma bind_outside:
  "io_bind (outside_io m) f w =
     (case fst (m (outside w)) of
        Inl e \<Rightarrow> (Inl e, w\<lparr>outside := snd (m (outside w))\<rparr>)
      | Inr v \<Rightarrow> f v (w\<lparr>outside := snd (m (outside w))\<rparr>))"
  by (simp add: io_bind_def outside_io_def split: sum.splits prod.splits)

lemma io_return_apply: "io_return x w = (Inr x, w)"
  by (simp add: io_return_def)

lemma bind_return: "io_bind (io_return x) f w = f x w"
  by (simp add: io_bind_def io_return_def)

lemma bind_map_model:
  assumes "cache_ok w"
  shows "io_bind (map_model p) f w = f (mapped_payload w p) (snd (map_model p w))"
    and "calls (snd (map_model p w)) = calls w @ [call_getModelMappings]"
    and "state (snd (map_model p w)) = state w"
    and "sse_out (snd (map_model p w)) = sse_out w"
    and "outside (snd (map_model p w)) = outside w"
proof -
  obtain r w' where run: "map_model p w = (r, w')" by (cases "map_model p w")
  note f = map_model_run [OF run assms]
  show "io_bind (map_model p) f w = f (mapped_payload w p) (snd (map_model p w))"
    using f by (simp add: io_bind_def run)
  show "calls (snd (map_model p w)) = calls w @ [call_getModelMappings]"
    "state (snd (map_model p w)) = state w" "sse_out (snd (map_model p w)) = sse_out w"
    "outside (snd (map_model p w)) = outside w"
    using f by (simp_all add: run)
qed

lemma traceRequest_returns: "\<exists>ts. fst (traceRequest A request w) = Inr ts"
  by (simp add: traceRequest_def try_catch_def io_bind_def of_result_def outside_io_def
      consola_log_def io_return_def Let_def split: sum.splits prod.splits)

lemma bind_traceRequest:
  "io_bind (traceRequest A d) f w =
     f (projr (fst (traceRequest A d w))) (snd (traceRequest A d w))"
  "calls (snd (traceRequest A d w)) = calls w"
  "state (snd (traceRequest A d w)) = state w"
  "sse_out (snd (traceRequest A d w)) = sse_out w"
proof -
  obtain r w' where run: "traceRequest A d w = (r, w')" by (cases "traceRequest A d w")
  from traceRequest_returns [of A d w] obtain ts where "r = Inr ts"
    by (auto simp: run)
  then show "io_bind (traceRequest A d) f w =
     f (projr (fst (traceRequest A d w))) (snd (traceRequest A d w))"
    by (auto simp: io_bind_def run)
  from traceRequest_untouched [OF run]
  show "calls (snd (traceRequest A d w)) = calls w"
    "state (snd (traceRequest A d w)) = state w"
    "sse_out (snd (traceRequest A d w)) = sse_out w"
    by (simp_all add: run untouched_def)
qed

lemma until_response_run:
  assumes ok: "cache_ok w"
  shows "state (snd (until_response X c w)) = state w \<and>
         sse_out (snd (until_response X c w)) = sse_out w \<and>
         (\<exists>cs. calls (snd (until_response X c w)) = calls w @ cs \<and>
            (case fst (until_response X c w) of
               Inl e \<Rightarrow> prefix cs (orchestration X c w)
             | Inr answer \<Rightarrow> cs = orchestration X c w))"
proof (cases "fst (checkRateLimit X (outside w))")
  case (Inl e)
  then show ?thesis
    by (simp add: until_response_def bind_mark bind_outside orchestration_def split: sum.splits)
next
  case limit: (Inr u)
  show ?thesis
  proof (cases "req_json c")
    case (Inl e)
    with limit show ?thesis
      by (simp add: until_response_def bind_mark bind_outside bind_of_result orchestration_def)
  next
    case json: (Inr received)
    show ?thesis
      using limit json ok
      apply (simp add: until_response_def bind_mark bind_outside bind_of_result bind_log
          bind_map_model mapped_payload_updates
          bind_traceRequest io_bind_if bind_return orchestration_def io_bind_assoc
          io_return_apply split: sum.splits)
      done
  qed
qed

section \<open>The streaming loop\<close>

lemma written_simps [simp]:
  "written [] = []"
  "written (a @ b) = written a @ written b"
  "written (call_writeSSE f # cs) = f # written cs"
  "written (read_rawEvent r # cs) = written cs"
  "written (call_translateChunk ch s # cs) = written cs"
  "written (returned_translateChunk es # cs) = written cs"
  by (simp_all add: written_def)

lemma written_writes [simp]: "written (map (\<lambda>e. call_writeSSE (g e)) es) = map g es"
  by (induction es) (simp_all add: written_def)

lemma produced_simps [simp]:
  "produced [] = []"
  "produced (a @ b) = produced a @ produced b"
  "produced (call_writeSSE f # cs) = produced cs"
  "produced (read_rawEvent r # cs) = produced cs"
  "produced (call_translateChunk ch s # cs) = produced cs"
  "produced (returned_translateChunk es # cs) = es @ produced cs"
  by (simp_all add: produced_def)

lemma produced_writes [simp]: "produced (map (\<lambda>e. call_writeSSE (g e)) es) = []"
  by (induction es) (simp_all add: produced_def)

lemma pending_after_append:
  "pending_after X p (a @ b) =
     (case pending_after X p a of None \<Rightarrow> None | Some q \<Rightarrow> pending_after X q b)"
  by (induction a arbitrary: p) (auto split: call.splits list.splits)

lemma pending_after_writes:
  "pending_after X (es @ q) (map (\<lambda>e. call_writeSSE (frame X e)) es) = Some q"
  by (induction es) simp_all

lemma first_translate_state_append:
  "first_translate_state (a @ b) =
     (case first_translate_state a of None \<Rightarrow> first_translate_state b | Some s \<Rightarrow> Some s)"
  by (induction a) (auto split: call.splits)

lemma first_translate_state_writes [simp]:
  "first_translate_state (map (\<lambda>e. call_writeSSE (g e)) es) = None"
  by (induction es) simp_all

lemma done_last_append:
  "\<forall>c \<in> set a. \<not> is_done_read c \<Longrightarrow> done_last b \<Longrightarrow> done_last (a @ b)"
proof (unfold done_last_def, intro allI impI)
  fix n
  assume a: "\<forall>c \<in> set a. \<not> is_done_read c"
    and b: "\<forall>n < length b. is_done_read (b ! n) \<longrightarrow> Suc n = length b"
    and n: "n < length (a @ b)" and d: "is_done_read ((a @ b) ! n)"
  show "Suc n = length (a @ b)"
  proof (cases "n < length a")
    case True
    then have "(a @ b) ! n \<in> set a" by (simp add: nth_append)
    with a d show ?thesis by blast
  next
    case False
    then have "(a @ b) ! n = b ! (n - length a)" "n - length a < length b"
      using n by (simp_all add: nth_append)
    with b d have "Suc (n - length a) = length b" by simp
    with False show ?thesis by simp
  qed
qed

lemma done_last_none: "\<forall>c \<in> set a. \<not> is_done_read c \<Longrightarrow> done_last a"
  by (auto simp: done_last_def)

lemma bind_addChunk:
  "io_bind (addChunk v t) f w =
     f (if \<not> traceEnabled (state w) then t else t\<lparr>chunks := chunks t @ [v]\<rparr>) w"
  by (simp add: io_bind_def addChunk_def)

lemma bind_writeSSE: "io_bind (writeSSE m) f w = f () (w\<lparr>sse_out := sse_out w @ [m]\<rparr>)"
  by (simp add: io_bind_def writeSSE_def)

lemma write_events_run:
  "write_events X chunk events t w = (r, w') \<Longrightarrow>
   (\<exists>t'. r = Inr t')
   \<and> calls w' = calls w @ map (\<lambda>e. call_writeSSE (frame X e)) events
   \<and> sse_out w' = sse_out w @ map (frame X) events
   \<and> state w' = state w"
proof (induction events arbitrary: t w)
  case Nil
  then show ?case by simp
next
  case (Cons event events)
  let ?t = "if \<not> traceEnabled (state w) then t
            else t\<lparr>chunks := chunks t @ [chunk_pair chunk event]\<rparr>"
  let ?w = "w\<lparr>consola := consola w @ [Log LDebug ''Translated Anthropic event:'' []],
               calls := calls w @ [call_writeSSE (frame X event)],
               sse_out := sse_out w @ [frame X event]\<rparr>"
  from Cons.prems have "write_events X chunk events ?t ?w = (r, w')"
    by (simp add: bind_log bind_addChunk bind_mark bind_writeSSE)
  from Cons.IH [OF this] show ?case by auto
qed

lemma for_await_Cons:
  "for_await X (raw # rest) fin acc w =
     (let w1 = w\<lparr>calls := calls w @ [read_rawEvent raw],
                  consola := consola w @ [Log LDebug ''Copilot raw stream event:'' []]\<rparr>
      in if raw_data raw = Some (str ''[DONE]'') then (Inr acc, w1)
         else if falsy (raw_data raw) then for_await X rest fin acc w1
         else
           case JSON_parse X (the (raw_data raw)) of
             Inl e \<Rightarrow> (Inl e, w1)
           | Inr chunk \<Rightarrow>
               let w2 = w1\<lparr>calls := calls w1 @ [call_translateChunk chunk (fst acc)]\<rparr> in
               case translateChunkToAnthropicEvents X chunk (fst acc) of
                 Inl e \<Rightarrow> (Inl e, w2)
               | Inr tr \<Rightarrow>
                   io_bind (write_events X chunk (fst tr) (snd acc))
                     (\<lambda>t'. for_await X rest fin (snd tr, t'))
                     (w2\<lparr>calls := calls w2 @ [returned_translateChunk (fst tr)]\<rparr>))"
  by (simp add: bind_mark bind_log bind_of_result io_return_apply Let_def split: sum.splits)

lemma for_await_run:
  "for_await X raws fin acc w = (r, w') \<Longrightarrow>
   state w' = state w \<and>
   (\<exists>cs. calls w' = calls w @ cs
      \<and> sse_out w' = sse_out w @ written cs
      \<and> pending_after X [] cs = Some []
      \<and> done_last cs
      \<and> (\<forall>c \<in> set cs. is_stream_work c)
      \<and> first_translate_state cs \<in> {None, Some (fst acc)})"
proof (induction raws arbitrary: acc w)
  case Nil
  then show ?case by (cases fin) (auto simp: done_last_def)
next
  case (Cons raw rest)
  let ?w1 = "w\<lparr>calls := calls w @ [read_rawEvent raw],
                 consola := consola w @ [Log LDebug ''Copilot raw stream event:'' []]\<rparr>"
  note run = Cons.prems [unfolded for_await_Cons Let_def]
  show ?case
  proof (cases "raw_data raw = Some (str ''[DONE]'')")
    case True
    with run show ?thesis
      by (auto simp: done_last_def is_stream_work_def is_done_read_def)
  next
    case notdone: False
    then have nd: "\<not> is_done_read (read_rawEvent raw :: 'a call)" by (simp add: is_done_read_def)
    show ?thesis
    proof (cases "falsy (raw_data raw)")
      case True
      with notdone run have "for_await X rest fin acc ?w1 = (r, w')" by simp
      from Cons.IH [OF this] obtain cs where cs: "calls w' = calls w @ read_rawEvent raw # cs"
        "sse_out w' = sse_out w @ written cs" "pending_after X [] cs = Some []" "done_last cs"
        "\<forall>c \<in> set cs. is_stream_work c" "first_translate_state cs \<in> {None, Some (fst acc)}"
        and st: "state w' = state w"
        by auto
      have "done_last ([read_rawEvent raw] @ cs)"
        using nd cs(4) by (intro done_last_append) simp_all
      with cs st show ?thesis
        by (intro conjI exI [of _ "read_rawEvent raw # cs"]) (simp_all add: is_stream_work_def)
    next
      case data: False
      show ?thesis
      proof (cases "JSON_parse X (the (raw_data raw))")
        case (Inl e)
        with notdone data run show ?thesis
          by (auto simp: done_last_def is_stream_work_def is_done_read_def)
      next
        case parsed: (Inr chunk)
        show ?thesis
        proof (cases "translateChunkToAnthropicEvents X chunk (fst acc)")
          case (Inl e)
          with notdone data parsed run show ?thesis
            by (intro conjI exI [of _ "[read_rawEvent raw, call_translateChunk chunk (fst acc)]"])
              (auto simp: done_last_def is_stream_work_def is_done_read_def nth_Cons split: nat.splits)
        next
          case tr: (Inr tr)
          let ?w3 = "w\<lparr>consola := consola w @ [Log LDebug ''Copilot raw stream event:'' []],
                        calls := calls w @ [read_rawEvent raw, call_translateChunk chunk (fst acc),
                          returned_translateChunk (fst tr)]\<rparr>"
          let ?head = "[read_rawEvent raw, call_translateChunk chunk (fst acc),
                        returned_translateChunk (fst tr)]
                       @ map (\<lambda>e. call_writeSSE (frame X e)) (fst tr)"
          from notdone data parsed tr run
          have b: "io_bind (write_events X chunk (fst tr) (snd acc))
                     (\<lambda>t'. for_await X rest fin (snd tr, t')) ?w3 = (r, w')"
            by simp
          obtain r1 w4 where we: "write_events X chunk (fst tr) (snd acc) ?w3 = (r1, w4)"
            by (cases "write_events X chunk (fst tr) (snd acc) ?w3")
          from write_events_run [OF we] obtain t' where t': "r1 = Inr t'"
            and w4: "calls w4 = calls w @ ?head" "sse_out w4 = sse_out w @ map (frame X) (fst tr)"
              "state w4 = state w"
            by auto
          from b we t' have "for_await X rest fin (snd tr, t') w4 = (r, w')"
            by (simp add: io_bind_def)
          from Cons.IH [OF this] w4 t' obtain cs where cs: "calls w' = calls w @ ?head @ cs"
            "sse_out w' = sse_out w @ map (frame X) (fst tr) @ written cs"
            "pending_after X [] cs = Some []" "done_last cs"
            "\<forall>c \<in> set cs. is_stream_work c"
            and st: "state w' = state w"
            by auto
          have p: "pending_after X [] (?head @ cs) = Some []"
            using pending_after_writes [of X "fst tr" "[]"] cs(3)
            by (simp add: pending_after_append)
          have d: "done_last (?head @ cs)"
            using nd cs(4) by (intro done_last_append) (auto simp: is_done_read_def)
          have f: "first_translate_state (?head @ cs) = Some (fst acc)" by simp
          have s: "\<forall>c \<in> set (?head @ cs). is_stream_work c"
            using cs(5) by (auto simp: is_stream_work_def)
          from cs(1,2) p d f s st show ?thesis
            by (intro conjI exI [of _ "?head @ cs"]) simp_all
        qed
      qed
    qed
  qed
qed

lemma bind_traceResponse:
  "io_bind (traceResponse A d ts) f w = f () (snd (traceResponse A d ts w))"
  "calls (snd (traceResponse A d ts w)) = calls w"
  "state (snd (traceResponse A d ts w)) = state w"
  "sse_out (snd (traceResponse A d ts w)) = sse_out w"
proof -
  obtain r w' where run: "traceResponse A d ts w = (r, w')" by (cases "traceResponse A d ts w")
  have "fst (traceResponse A d ts w) = Inr ()"
    by (simp add: traceResponse_def try_catch_def io_bind_def of_result_def outside_io_def
        consola_log_def io_return_def Let_def split: sum.splits prod.splits)
  then have "r = Inr ()" by (simp add: run)
  then show "io_bind (traceResponse A d ts) f w = f () (snd (traceResponse A d ts w))"
    by (simp add: io_bind_def run)
  from traceResponse_untouched [OF run]
  show "calls (snd (traceResponse A d ts w)) = calls w"
    "state (snd (traceResponse A d ts w)) = state w"
    "sse_out (snd (traceResponse A d ts w)) = sse_out w"
    by (simp_all add: run untouched_def)
qed

lemma respond_json_run:
  "state (snd (respond_json X response ts w)) = state w
   \<and> sse_out (snd (respond_json X response ts w)) = sse_out w
   \<and> calls (snd (respond_json X response ts w)) = calls w @ json_calls X response
   \<and> fst (respond_json X response ts w) =
       (case translateToAnthropic X (body response) of
          Inl e \<Rightarrow> Inl e
        | Inr anthropicResponse \<Rightarrow> Inr (json_response anthropicResponse))"
  by (simp add: respond_json_def json_calls_def bind_log bind_mark bind_of_result
      bind_traceResponse io_return_apply split: sum.splits)

lemma finish_returns: "fst (finish A t w) = Inr ()"
  by (simp add: finish_def try_catch_def io_bind_def of_result_def outside_io_def
      consola_log_def io_return_def Let_def split: sum.splits prod.splits)

lemma stream_callback_run:
  assumes "stream_callback X response ts w = (r, w')"
  shows "state w' = state w \<and>
     (\<exists>cs. calls w' = calls w @ cs @ (case r of Inl e \<Rightarrow> [] | Inr u \<Rightarrow> [call_finish])
        \<and> sse_out w' = sse_out w @ written cs
        \<and> pending_after X [] cs = Some []
        \<and> done_last cs
        \<and> (\<forall>c \<in> set cs. is_stream_work c)
        \<and> first_translate_state cs \<in> {None, Some initialStreamState})"
proof (cases "iteration response")
  case None
  with assms show ?thesis
    by (auto simp: stream_callback_def Let_def io_bind_def io_throw_def done_last_def)
next
  case (Some it)
  obtain r1 w1 where loop:
    "for_await X (fst it) (snd it) (initialStreamState, new_StreamTracer ts) w = (r1, w1)"
    by (cases "for_await X (fst it) (snd it) (initialStreamState, new_StreamTracer ts) w")
  from for_await_run [OF loop] obtain cs where cs: "calls w1 = calls w @ cs"
    "sse_out w1 = sse_out w @ written cs" "pending_after X [] cs = Some []" "done_last cs"
    "\<forall>c \<in> set cs. is_stream_work c" "first_translate_state cs \<in> {None, Some initialStreamState}"
    and st: "state w1 = state w"
    by auto
  show ?thesis
  proof (cases r1)
    case (Inl e)
    with assms Some loop have "r = Inl e" "w' = w1"
      by (simp_all add: stream_callback_def Let_def io_bind_def)
    with cs st show ?thesis by auto
  next
    case (Inr acc')
    let ?w2 = "w1\<lparr>calls := calls w1 @ [call_finish]\<rparr>"
    from assms Some loop Inr have f: "finish (node X) (snd acc') ?w2 = (r, w')"
      by (simp add: stream_callback_def Let_def io_bind_def mark_def)
    from finish_untouched [OF f] have u: "calls w' = calls w1 @ [call_finish]"
      "state w' = state w1" "sse_out w' = sse_out w1"
      by (simp_all add: untouched_def)
    from finish_returns [of "node X" "snd acc'" ?w2] f have "r = Inr ()" by simp
    with cs st u show ?thesis by auto
  qed
qed

lemma streamSSE_run:
  assumes "streamSSE (stream_callback X response ts) w = (r, w')"
  shows "r = Inr sse_response \<and> state w' = state w \<and>
     (\<exists>cs thrown. calls w' = calls w @ stream_calls cs thrown
        \<and> sse_out w' = sse_out w @ written cs
        \<and> pending_after X [] cs = Some []
        \<and> done_last cs
        \<and> (\<forall>c \<in> set cs. is_stream_work c)
        \<and> first_translate_state cs \<in> {None, Some initialStreamState}
        \<and> (thrown = None \<longleftrightarrow>
             \<not> isl (fst (stream_callback X response ts (w\<lparr>calls := calls w @ [call_streamSSE]\<rparr>)))))"
proof -
  let ?w0 = "w\<lparr>calls := calls w @ [call_streamSSE]\<rparr>"
  obtain r1 w1 where cb: "stream_callback X response ts ?w0 = (r1, w1)"
    by (cases "stream_callback X response ts ?w0")
  from stream_callback_run [OF cb] obtain cs where
    cs: "calls w1 = calls w @ call_streamSSE # cs @ (case r1 of Inl e \<Rightarrow> [] | Inr u \<Rightarrow> [call_finish])"
    "sse_out w1 = sse_out w @ written cs" "pending_after X [] cs = Some []" "done_last cs"
    "\<forall>c \<in> set cs. is_stream_work c" "first_translate_state cs \<in> {None, Some initialStreamState}"
    and st: "state w1 = state w"
    by auto
  let ?thrown = "case r1 of Inl e \<Rightarrow> Some e | Inr u \<Rightarrow> None"
  from assms cb have r: "r = Inr sse_response"
    and w': "w' = w1\<lparr>calls := calls w1 @ [stream_closed ?thrown]\<rparr>"
    by (auto simp: streamSSE_def bind_mark io_bind_def try_catch_def io_return_def mark_def
        split: sum.splits)
  have "calls w' = calls w @ stream_calls cs ?thrown"
    using w' cs(1) by (simp add: stream_calls_def split: sum.splits)
  moreover have "?thrown = None \<longleftrightarrow> \<not> isl (fst (stream_callback X response ts ?w0))"
    by (simp add: cb split: sum.splits)
  ultimately show ?thesis
    using r w' st cs(2-6) by (intro conjI exI [of _ cs] exI [of _ ?thrown]) simp_all
qed

text \<open>The handler, from the first part on.\<close>

lemma handleCompletion_run:
  assumes first: "until_response X c w = (a, w1)"
  shows "handleCompletion X c w =
     (case a of
        Inl e \<Rightarrow> (Inl e, w1)
      | Inr answer \<Rightarrow> respond X answer w1)"
  by (simp add: handleCompletion_split io_bind_def first split: sum.splits)

lemma respond_stream_run:
  assumes "str ''choices'' \<notin> set (own_props response)"
    and "respond X (ts, response) w = (r, w')"
  shows "r = Inr sse_response \<and> state w' = state w \<and>
     (\<exists>cs thrown. calls w' = calls w @ stream_calls cs thrown
        \<and> sse_out w' = sse_out w @ written cs
        \<and> pending_after X [] cs = Some []
        \<and> done_last cs
        \<and> (\<forall>c \<in> set cs. is_stream_work c)
        \<and> first_translate_state cs \<in> {None, Some initialStreamState})"
proof -
  let ?w0 = "w\<lparr>consola := consola w @ [Log LDebug ''Streaming response from Copilot'' []]\<rparr>"
  from assms have "streamSSE (stream_callback X response ts) ?w0 = (r, w')"
    by (simp add: respond_def bind_log)
  from streamSSE_run [OF this] show ?thesis by auto
qed

text \<open>What the monitor says about the log.\<close>

lemma written_Cons:
  "written (c # cs) = (case c of call_writeSSE f \<Rightarrow> [f] | _ \<Rightarrow> []) @ written cs"
  by (simp add: written_def)

lemma produced_Cons:
  "produced (c # cs) = (case c of returned_translateChunk es \<Rightarrow> es | _ \<Rightarrow> []) @ produced cs"
  by (simp add: produced_def)

lemma pending_after_balance:
  "pending_after X p cs = Some q \<Longrightarrow>
   map (frame X) p @ map (frame X) (produced cs) = written cs @ map (frame X) q"
proof (induction cs arbitrary: p)
  case Nil
  then show ?case by simp
next
  case (Cons c cs)
  from Cons.prems show ?case
    by (cases c) (auto simp: written_Cons produced_Cons split: if_splits list.splits
        dest!: Cons.IH)
qed

lemma pending_after_at_read:
  "pending_after X p cs = Some q \<Longrightarrow> n < length cs \<Longrightarrow> is_read (cs ! n) \<Longrightarrow>
   pending_after X p (take n cs) = Some []"
proof (induction cs arbitrary: p n)
  case Nil
  then show ?case by simp
next
  case (Cons c cs)
  show ?case
  proof (cases n)
    case 0
    with Cons.prems show ?thesis by (cases c) (auto simp: is_read_def split: if_splits)
  next
    case (Suc m)
    with Cons.prems have m: "m < length cs" "is_read (cs ! m)" by simp_all
    from Cons.prems(1) Cons.IH [OF _ m] Suc show ?thesis
      by (cases c) (auto split: if_splits list.splits)
  qed
qed

lemma handed_off:
  assumes "pending_after X [] cs = Some []"
  shows "written cs = map (frame X) (produced cs)"
    and "n < length cs \<Longrightarrow> is_read (cs ! n) \<Longrightarrow>
         written (take n cs) = map (frame X) (produced (take n cs))"
proof -
  from pending_after_balance [OF assms] show "written cs = map (frame X) (produced cs)" by simp
  assume "n < length cs" "is_read (cs ! n)"
  from pending_after_at_read [OF assms this]
  have "pending_after X [] (take n cs) = Some []" .
  from pending_after_balance [OF this]
  show "written (take n cs) = map (frame X) (produced (take n cs))" by simp
qed

lemma for_await_returns:
  assumes "well_formed X raws"
    and "fin = Exhausted \<or> (\<exists>raw \<in> set raws. raw_data raw = Some (str ''[DONE]''))"
  shows "\<not> isl (fst (for_await X raws fin acc w))"
  using assms
proof (induction raws arbitrary: acc w)
  case Nil
  then show ?case by (auto simp: io_return_def)
next
  case (Cons raw rest)
  from Cons.prems(1) have wf: "well_formed X rest"
    and total: "\<And>ch s. \<not> isl (translateChunkToAnthropicEvents X ch s)"
    and this_raw: "falsy (raw_data raw) \<or> raw_data raw = Some (str ''[DONE]'')
                 \<or> \<not> isl (JSON_parse X (the (raw_data raw)))"
    by (simp_all add: well_formed_def)
  show ?case
  proof (cases "raw_data raw = Some (str ''[DONE]'')")
    case True
    then show ?thesis by (simp add: for_await_Cons del: for_await.simps)
  next
    case False
    with Cons.prems(2)
    have fin: "fin = Exhausted \<or> (\<exists>raw \<in> set rest. raw_data raw = Some (str ''[DONE]''))"
      by auto
    note IH = Cons.IH [OF wf fin]
    show ?thesis
    proof (cases "falsy (raw_data raw)")
      case True
      with False IH show ?thesis by (simp add: for_await_Cons del: for_await.simps)
    next
      case data: False
      with False this_raw obtain chunk where p: "JSON_parse X (the (raw_data raw)) = Inr chunk"
        by (cases "JSON_parse X (the (raw_data raw))") auto
      from total [of chunk "fst acc"] obtain tr where
        t: "translateChunkToAnthropicEvents X chunk (fst acc) = Inr tr"
        by (cases "translateChunkToAnthropicEvents X chunk (fst acc)") auto
      let ?w3 = "w\<lparr>consola := consola w @ [Log LDebug ''Copilot raw stream event:'' []],
                    calls := calls w @ [read_rawEvent raw, call_translateChunk chunk (fst acc),
                      returned_translateChunk (fst tr)]\<rparr>"
      obtain r1 w4 where we: "write_events X chunk (fst tr) (snd acc) ?w3 = (r1, w4)"
        by (cases "write_events X chunk (fst tr) (snd acc) ?w3")
      from write_events_run [OF we] obtain t' where "r1 = Inr t'" by auto
      with we False data p t IH [of "(snd tr, t')" w4] show ?thesis
        by (simp add: for_await_Cons io_bind_def del: for_await.simps)
    qed
  qed
qed

section \<open>The handler as a whole\<close>

lemma orchestration_calls: "\<forall>c \<in> set (orchestration X c0 w). is_orchestration_call c"
  by (auto simp: orchestration_def is_orchestration_call_def split: sum.splits)

lemma json_calls_kind:
  "\<forall>c \<in> set (json_calls X response). \<not> is_orchestration_call c \<and> \<not> is_stream_work c"
  by (auto simp: json_calls_def is_orchestration_call_def is_stream_work_def split: sum.splits)

lemma stream_work_kind: "is_stream_work c \<Longrightarrow> \<not> is_orchestration_call c \<and> c \<noteq> call_finish"
  by (cases c) (simp_all add: is_stream_work_def is_orchestration_call_def)

lemma orchestration_kind: "is_orchestration_call c \<Longrightarrow> \<not> is_stream_work c"
  using stream_work_kind by blast

lemma stream_calls_kind:
  "\<forall>c \<in> set loop. is_stream_work c \<Longrightarrow>
   \<forall>c \<in> set (stream_calls loop thrown). \<not> is_orchestration_call c"
proof -
  assume "\<forall>c \<in> set loop. is_stream_work c"
  then have "\<forall>c \<in> set loop. \<not> is_orchestration_call c" using stream_work_kind by blast
  moreover have "\<not> is_orchestration_call (call_streamSSE :: 'a call)"
    "\<not> is_orchestration_call (call_finish :: 'a call)"
    "\<not> is_orchestration_call (stream_closed thrown :: 'a call)"
    by (simp_all add: is_orchestration_call_def)
  ultimately show ?thesis by (auto simp: stream_calls_def split: option.splits)
qed

lemma no_stream_work:
  "\<forall>c \<in> set cs. \<not> is_stream_work c \<Longrightarrow> written cs = [] \<and> produced cs = []"
proof (induction cs)
  case Nil
  then show ?case by simp
next
  case (Cons c cs)
  then show ?case
    by (cases c) (simp_all add: written_Cons produced_Cons is_stream_work_def)
qed

lemma stream_calls_written [simp]:
  "written (stream_calls loop thrown) = written loop"
  "produced (stream_calls loop thrown) = produced loop"
  by (simp_all add: stream_calls_def written_Cons produced_Cons split: option.splits)

lemma until_response_returns:
  assumes ok: "cache_ok w" and ret: "fst (until_response X c w) = Inr answer"
  shows "\<exists>received q. req_json c = Inr received
           \<and> translateToOpenAI X (mapped_payload w received) = Inr q
           \<and> orchestration X c w = before_backend w received @ [call_createChatCompletions q]"
proof (cases "fst (checkRateLimit X (outside w))")
  case (Inl e)
  with ret show ?thesis
    by (simp add: until_response_def bind_mark bind_outside)
next
  case limit: (Inr u)
  show ?thesis
  proof (cases "req_json c")
    case (Inl e)
    with limit ret show ?thesis
      by (simp add: until_response_def bind_mark bind_outside bind_of_result)
  next
    case json: (Inr received)
    show ?thesis
    proof (cases "translateToOpenAI X (mapped_payload w received)")
      case (Inl e)
      with limit json ok ret show ?thesis
        by (simp add: until_response_def bind_mark bind_outside bind_of_result bind_log
            bind_map_model mapped_payload_updates bind_traceRequest)
    next
      case (Inr q)
      with json show ?thesis by (simp add: orchestration_def before_backend_def)
    qed
  qed
qed




text \<open>The shape of every run of the handler.\<close>

lemma handleCompletion_shape:
  assumes ok: "cache_ok w"
  shows "\<exists>cs. calls (snd (handleCompletion X c w)) = calls w @ cs
     \<and> sse_out (snd (handleCompletion X c w)) = sse_out w @ written cs
     \<and> written cs = map (frame X) (produced cs)
     \<and> (prefix cs (orchestration X c w)
        \<or> (\<exists>received q rest. req_json c = Inr received
              \<and> translateToOpenAI X (mapped_payload w received) = Inr q
              \<and> orchestration X c w = before_backend w received @ [call_createChatCompletions q]
              \<and> cs = orchestration X c w @ rest
              \<and> (\<forall>c \<in> set rest. \<not> is_orchestration_call c)))"
proof -
  obtain a w1 where first: "until_response X c w = (a, w1)" by (cases "until_response X c w")
  from until_response_run [OF ok, of X c] first obtain ocs where
    w1: "state w1 = state w" "sse_out w1 = sse_out w" "calls w1 = calls w @ ocs"
    and ocs: "case a of Inl e \<Rightarrow> prefix ocs (orchestration X c w)
                     | Inr answer \<Rightarrow> ocs = orchestration X c w"
    by auto
  note run = handleCompletion_run [OF first]
  show ?thesis
  proof (cases a)
    case (Inl e)
    with ocs have p: "prefix ocs (orchestration X c w)" by simp
    then have "set ocs \<subseteq> set (orchestration X c w)" by (rule set_mono_prefix)
    with orchestration_calls [of X c w] have "\<forall>c \<in> set ocs. \<not> is_stream_work c"
      using orchestration_kind by blast
    then have "written ocs = []" "produced ocs = []" using no_stream_work by blast+
    with Inl run w1 p show ?thesis by (intro exI [of _ ocs]) simp
  next
    case (Inr answer)
    with ocs have o: "ocs = orchestration X c w" by simp
    from until_response_returns [OF ok, of X c answer] first Inr
    obtain received q where rq: "req_json c = Inr received"
      "translateToOpenAI X (mapped_payload w received) = Inr q"
      "orchestration X c w = before_backend w received @ [call_createChatCompletions q]"
      by auto
    have nsw: "written ocs = []" "produced ocs = []"
      using no_stream_work [of ocs] orchestration_calls [of X c w] orchestration_kind o
      by blast+
    obtain ts response where answer: "answer = (ts, response)" by (cases answer)
    show ?thesis
    proof (cases "str ''choices'' \<in> set (own_props response)")
      case True
      with run Inr answer have h: "handleCompletion X c w = respond_json X response ts w1"
        by (simp add: respond_def)
      have "written (json_calls X response) = []" "produced (json_calls X response) = []"
        using no_stream_work [of "json_calls X response"] json_calls_kind [of X response]
        by blast+
      with h w1 o nsw rq json_calls_kind [of X response] show ?thesis
        by (intro exI [of _ "ocs @ json_calls X response"])
          (simp add: respond_json_run written_Cons produced_Cons)
    next
      case False
      obtain r w' where hr: "handleCompletion X c w = (r, w')" by (cases "handleCompletion X c w")
      with run Inr answer have "respond X (ts, response) w1 = (r, w')" by simp
      from respond_stream_run [OF False this] obtain loop thrown where
        l: "calls w' = calls w1 @ stream_calls loop thrown" "sse_out w' = sse_out w1 @ written loop"
        "pending_after X [] loop = Some []" "\<forall>c \<in> set loop. is_stream_work c"
        by auto
      from handed_off(1) [OF l(3)] have "written loop = map (frame X) (produced loop)" .
      with hr l w1 o nsw rq stream_calls_kind [OF l(4), of thrown] show ?thesis
        by (intro exI [of _ "ocs @ stream_calls loop thrown"])
          (simp add: written_Cons produced_Cons)
    qed
  qed
qed

lemma stream_callback_returns:
  assumes "iteration response = Some (raws, fin)" and "well_formed X raws"
    and "fin = Exhausted \<or> (\<exists>raw \<in> set raws. raw_data raw = Some (str ''[DONE]''))"
  shows "\<not> isl (fst (stream_callback X response ts w))"
proof -
  let ?acc = "(initialStreamState, new_StreamTracer ts)"
  obtain r1 w1 where loop: "for_await X raws fin ?acc w = (r1, w1)"
    by (cases "for_await X raws fin ?acc w")
  from for_await_returns [OF assms(2,3), of ?acc w] loop obtain acc' where "r1 = Inr acc'"
    by (cases r1) auto
  with loop assms(1) show ?thesis
    by (simp add: stream_callback_def Let_def io_bind_def mark_def finish_returns)
qed

lemma respond_stream_thrown:
  assumes "str ''choices'' \<notin> set (own_props response)"
  shows "respond X (ts, response) =
           io_bind (consola_log LDebug ''Streaming response from Copilot'' [])
             (\<lambda>_. streamSSE (stream_callback X response ts))"
    and "\<exists>cs thrown. calls (snd (respond X (ts, response) w)) = calls w @ stream_calls cs thrown
        \<and> sse_out (snd (respond X (ts, response) w)) = sse_out w @ written cs
        \<and> pending_after X [] cs = Some []
        \<and> done_last cs
        \<and> (\<forall>c \<in> set cs. is_stream_work c)
        \<and> first_translate_state cs \<in> {None, Some initialStreamState}
        \<and> (thrown = None \<or> (\<exists>w0. isl (fst (stream_callback X response ts w0))))"
    and "fst (respond X (ts, response) w) = Inr sse_response"
proof -
  show e: "respond X (ts, response) =
           io_bind (consola_log LDebug ''Streaming response from Copilot'' [])
             (\<lambda>_. streamSSE (stream_callback X response ts))"
    using assms by (simp add: respond_def)
  let ?w0 = "w\<lparr>consola := consola w @ [Log LDebug ''Streaming response from Copilot'' []]\<rparr>"
  obtain r w' where run: "streamSSE (stream_callback X response ts) ?w0 = (r, w')"
    by (cases "streamSSE (stream_callback X response ts) ?w0")
  then have rw: "respond X (ts, response) w = (r, w')" by (simp add: e bind_log)
  from streamSSE_run [OF run] obtain cs thrown where
    "r = Inr sse_response" "calls w' = calls w @ stream_calls cs thrown"
    "sse_out w' = sse_out w @ written cs" "pending_after X [] cs = Some []" "done_last cs"
    "\<forall>c \<in> set cs. is_stream_work c" "first_translate_state cs \<in> {None, Some initialStreamState}"
    "thrown = None \<or> (\<exists>w0. isl (fst (stream_callback X response ts w0)))"
    by auto
  then show "\<exists>cs thrown. calls (snd (respond X (ts, response) w)) = calls w @ stream_calls cs thrown
        \<and> sse_out (snd (respond X (ts, response) w)) = sse_out w @ written cs
        \<and> pending_after X [] cs = Some []
        \<and> done_last cs
        \<and> (\<forall>c \<in> set cs. is_stream_work c)
        \<and> first_translate_state cs \<in> {None, Some initialStreamState}
        \<and> (thrown = None \<or> (\<exists>w0. isl (fst (stream_callback X response ts w0))))"
    and "fst (respond X (ts, response) w) = Inr sse_response"
    unfolding rw by (simp_all only: fst_conv snd_conv) blast
qed

lemma count_finish:
  assumes "\<forall>c \<in> set loop. is_stream_work c"
  shows "count_list (stream_calls loop thrown) call_finish = (if thrown = None then 1 else 0)"
proof -
  from assms have "\<forall>c \<in> set loop. c \<noteq> call_finish" using stream_work_kind by blast
  then have "count_list loop call_finish = 0" by (auto simp: count_list_0_iff)
  then show ?thesis by (simp add: stream_calls_def split: option.splits)
qed




text \<open>
  C10.  The handler is its first part followed by \<open>respond\<close>, and \<open>respond\<close> looks only at
  whether the answer of the backend has an own property named \<open>choices\<close>.  With it, the
  answer is translated once and returned as one JSON body, and nothing is read from it as
  a stream; without it, the handler answers with the SSE stream and runs the chunk loop.
\<close>

theorem routing_by_choices:
  "handleCompletion X c = io_bind (until_response X c) (respond X)
   \<and> isNonStreaming response = (str ''choices'' \<in> set (own_props response))
   \<and> (str ''choices'' \<in> set (own_props response) \<longrightarrow>
        respond X (ts, response) = respond_json X response ts
        \<and> calls (snd (respond X (ts, response) w)) = calls w @ json_calls X response
        \<and> sse_out (snd (respond X (ts, response) w)) = sse_out w
        \<and> fst (respond X (ts, response) w) =
            (case translateToAnthropic X (body response) of
               Inl e \<Rightarrow> Inl e
             | Inr anthropicResponse \<Rightarrow> Inr (json_response anthropicResponse)))
   \<and> (str ''choices'' \<notin> set (own_props response) \<longrightarrow>
        respond X (ts, response) =
          io_bind (consola_log LDebug ''Streaming response from Copilot'' [])
            (\<lambda>_. streamSSE (stream_callback X response ts))
        \<and> fst (respond X (ts, response) w) = Inr sse_response
        \<and> (\<exists>loop thrown. calls (snd (respond X (ts, response) w)) =
               calls w @ stream_calls loop thrown
             \<and> (\<forall>c \<in> set loop. is_stream_work c)))"
proof -
  have 1: "handleCompletion X c = io_bind (until_response X c) (respond X)"
    by (rule handleCompletion_split)
  have 2: "isNonStreaming response = (str ''choices'' \<in> set (own_props response))"
    by (simp add: isNonStreaming_def)
  have 3: "respond X (ts, response) = respond_json X response ts
        \<and> calls (snd (respond X (ts, response) w)) = calls w @ json_calls X response
        \<and> sse_out (snd (respond X (ts, response) w)) = sse_out w
        \<and> fst (respond X (ts, response) w) =
            (case translateToAnthropic X (body response) of
               Inl e \<Rightarrow> Inl e
             | Inr anthropicResponse \<Rightarrow> Inr (json_response anthropicResponse))"
    if "str ''choices'' \<in> set (own_props response)"
    using that by (simp add: respond_def respond_json_run)
  have 4: "respond X (ts, response) =
          io_bind (consola_log LDebug ''Streaming response from Copilot'' [])
            (\<lambda>_. streamSSE (stream_callback X response ts))
        \<and> fst (respond X (ts, response) w) = Inr sse_response
        \<and> (\<exists>loop thrown. calls (snd (respond X (ts, response) w)) =
               calls w @ stream_calls loop thrown
             \<and> (\<forall>c \<in> set loop. is_stream_work c))"
    if n: "str ''choices'' \<notin> set (own_props response)"
    using respond_stream_thrown(1,3) [OF n]
      respond_stream_thrown(2) [OF n, where X = X and ts = ts and w = w]
    by blast
  from 1 2 3 4 show ?thesis by blast
qed

theorem routing_by_choices_witness:
  "str ''choices'' \<in> set (own_props json_answer)
   \<and> str ''choices'' \<notin> set (own_props (stream_of [raw_of ''text'']))
   \<and> calls (snd (respond (demo json_answer) (None, json_answer) demo_world)) =
       [call_translateToAnthropic (str ''{}''), call_traceResponse, call_json (str ''{}'')]
   \<and> fst (respond (demo json_answer) (None, json_answer) demo_world) =
       Inr (json_response (str ''{}''))
   \<and> fst (respond (demo json_answer) (None, stream_of [raw_of ''text'']) demo_world) =
       Inr sse_response"
proof -
  have a: "str ''choices'' \<in> set (own_props json_answer)"
    by (simp add: json_answer_def)
  have b: "str ''choices'' \<notin> set (own_props (stream_of [raw_of ''text'']))"
    by (simp add: stream_of_def)
  have c: "calls demo_world = []" by (simp add: demo_world_def world0_def)
  have d: "json_calls (demo json_answer) json_answer =
      [call_translateToAnthropic (str ''{}''), call_traceResponse, call_json (str ''{}'')]"
    by (simp add: json_calls_def demo_def json_answer_def)
  have e: "translateToAnthropic (demo json_answer) (body json_answer) = Inr (str ''{}'')"
    by (simp add: demo_def json_answer_def)
  from routing_by_choices [of "demo json_answer" demo_request json_answer None demo_world] a
  have "calls (snd (respond (demo json_answer) (None, json_answer) demo_world)) =
          calls demo_world @ json_calls (demo json_answer) json_answer"
    "fst (respond (demo json_answer) (None, json_answer) demo_world) =
       (case translateToAnthropic (demo json_answer) (body json_answer) of
          Inl e \<Rightarrow> Inl e
        | Inr anthropicResponse \<Rightarrow> Inr (json_response anthropicResponse))"
    by blast+
  then have j: "calls (snd (respond (demo json_answer) (None, json_answer) demo_world)) =
       [call_translateToAnthropic (str ''{}''), call_traceResponse, call_json (str ''{}'')]"
    "fst (respond (demo json_answer) (None, json_answer) demo_world) =
       Inr (json_response (str ''{}''))"
    by (simp_all add: c d e)
  from routing_by_choices
    [of "demo json_answer" demo_request "stream_of [raw_of ''text'']" None demo_world] b
  have "fst (respond (demo json_answer) (None, stream_of [raw_of ''text'']) demo_world) =
       Inr sse_response"
    by blast
  with a b j show ?thesis by blast
qed

text \<open>
  C4.  In every run of the handler, the frames written to the transport are the frames of
  the events that the translator returned, one frame for each event and in the same order;
  the event field of a frame is the type of its event and the data field its serialisation.
\<close>

theorem frames_follow_events:
  assumes "reachable w"
  shows "\<exists>cs. calls (snd (handleCompletion X c w)) = calls w @ cs
     \<and> sse_out (snd (handleCompletion X c w)) = sse_out w @ written cs
     \<and> written cs =
         map (\<lambda>event. \<lparr>sse_event = event_type event, sse_data = JSON_stringify X event\<rparr>)
           (produced cs)"
proof -
  from assms have ok: "cache_ok w" by (rule reachable_cache_ok)
  have "frame X = (\<lambda>event. \<lparr>sse_event = event_type event, sse_data = JSON_stringify X event\<rparr>)"
    by (simp add: frame_def fun_eq_iff)
  with handleCompletion_shape [OF ok, of X c] show ?thesis by auto
qed

theorem frames_follow_events_witness:
  "reachable demo_world
   \<and> sse_out (snd (stream_callback (demo json_answer) (stream_of [raw_of ''stop'']) None demo_world)) =
       [\<lparr>sse_event = str ''message_start'', sse_data = str ''message_start''\<rparr>,
        \<lparr>sse_event = str ''message_delta'', sse_data = str ''message_delta''\<rparr>,
        \<lparr>sse_event = str ''message_stop'', sse_data = str ''message_stop''\<rparr>]
   \<and> (\<exists>cs. calls (snd (handleCompletion (demo (stream_of [raw_of ''stop''])) demo_request demo_world)) =
          calls demo_world @ cs
        \<and> sse_out (snd (handleCompletion (demo (stream_of [raw_of ''stop''])) demo_request demo_world)) =
            sse_out demo_world @ written cs
        \<and> written cs = map (\<lambda>event. \<lparr>sse_event = event_type event, sse_data = event_type event\<rparr>)
            (produced cs))"
proof -
  have r: "reachable demo_world"
    by (rule reachable.start) (simp_all add: demo_world_def world0_def)
  have e: "sse_out (snd (stream_callback (demo json_answer) (stream_of [raw_of ''stop'']) None demo_world)) =
       [\<lparr>sse_event = str ''message_start'', sse_data = str ''message_start''\<rparr>,
        \<lparr>sse_event = str ''message_delta'', sse_data = str ''message_delta''\<rparr>,
        \<lparr>sse_event = str ''message_stop'', sse_data = str ''message_stop''\<rparr>]"
    by code_simp
  have j: "JSON_stringify (demo (stream_of [raw_of ''stop''])) = event_type"
    by (simp add: demo_def)
  from frames_follow_events [OF r, of "demo (stream_of [raw_of ''stop''])" demo_request] r e j
  show ?thesis by simp
qed

text \<open>The equations that run the streaming path on the examples.\<close>

lemmas run_simps =
  stream_callback_def stream_of_def for_await_Cons raw_of_def Let_def demo_def demo_parse_def
  falsy_def initialStreamState_def new_StreamTracer_def translateChunk_spec_def
  chunk_text_def chunk_stop_def empty_delta_def then_emit_def step_message_start_def
  step_text_def step_finish_def close_open_block_def open_block_def isToolBlockOpen_def
  map_stop_reason_def io_bind_def demo_world_def world0_def consola_log_def addChunk_def
  mark_def writeSSE_def frame_def state0_def io_return_def io_throw_def finish_def try_catch_def
  of_result_def outside_io_def disk_ok_def str_def

text \<open>
  C6 (amended).  In the streaming path the log has the shape \<open>stream_calls loop thrown\<close>:
  the calls of the chunk loop, then one call of \<open>finish\<close> when the loop has ended without
  an exception, and none when it has thrown.  Whenever the next raw event is read, every
  event returned by the translator so far has been written.  A raw event whose data is
  \<open>[DONE]\<close> is the last call of the loop: nothing is read, translated or written after it.
  The loop ends without an exception when every data string parses, the translator does
  not throw, and the events end by exhaustion or contain the sentinel.
\<close>

theorem streaming_order:
  assumes "str ''choices'' \<notin> set (own_props response)"
  shows "\<exists>loop thrown.
       calls (snd (respond X (ts, response) w)) = calls w @ stream_calls loop thrown
     \<and> (\<forall>c \<in> set loop. is_stream_work c)
     \<and> (\<forall>n < length loop. is_read (loop ! n) \<longrightarrow>
           written (take n loop) = map (frame X) (produced (take n loop)))
     \<and> written loop = map (frame X) (produced loop)
     \<and> (\<forall>n < length loop. is_done_read (loop ! n) \<longrightarrow> Suc n = length loop)
     \<and> count_list (stream_calls loop thrown) call_finish = (if thrown = None then 1 else 0)
     \<and> (\<forall>raws fin. iteration response = Some (raws, fin) \<and> well_formed X raws
            \<and> (fin = Exhausted \<or> (\<exists>raw \<in> set raws. raw_data raw = Some (str ''[DONE]'')))
            \<longrightarrow> thrown = None)"
proof -
  from respond_stream_thrown(2) [OF assms, where X = X and ts = ts and w = w]
  obtain loop thrown where
    l: "calls (snd (respond X (ts, response) w)) = calls w @ stream_calls loop thrown"
    and p: "pending_after X [] loop = Some []"
    and d: "done_last loop"
    and k: "\<forall>c \<in> set loop. is_stream_work c"
    and t: "thrown = None \<or> (\<exists>w0. isl (fst (stream_callback X response ts w0)))"
    by blast
  have a: "\<forall>n < length loop. is_read (loop ! n) \<longrightarrow>
           written (take n loop) = map (frame X) (produced (take n loop))"
    using handed_off(2) [OF p] by blast
  have b: "written loop = map (frame X) (produced loop)"
    using handed_off(1) [OF p] .
  have c: "\<forall>n < length loop. is_done_read (loop ! n) \<longrightarrow> Suc n = length loop"
    using d by (simp add: done_last_def)
  have f: "count_list (stream_calls loop thrown) call_finish = (if thrown = None then 1 else 0)"
    using k by (rule count_finish)
  have g: "thrown = None"
    if "iteration response = Some (raws, fin)" "well_formed X raws"
      "fin = Exhausted \<or> (\<exists>raw \<in> set raws. raw_data raw = Some (str ''[DONE]''))"
    for raws fin
    using t stream_callback_returns [OF that] by blast
  from l k a b c f g show ?thesis by blast
qed

theorem streaming_order_witness:
  "str ''choices'' \<notin> set (own_props (stream_of [raw_of ''text'', raw_of ''[DONE]'', raw_of ''stop'']))
   \<and> calls (snd (stream_callback (demo json_answer)
                  (stream_of [raw_of ''text'', raw_of ''[DONE]'', raw_of ''stop'']) None demo_world)) =
       [read_rawEvent (raw_of ''text''),
        call_translateChunk chunk_text initialStreamState,
        returned_translateChunk
          [message_start, content_block_start 1 (text_block []),
           content_block_delta 1 (text_delta (str ''Hi''))],
        call_writeSSE (frame (demo json_answer) message_start),
        call_writeSSE (frame (demo json_answer) (content_block_start 1 (text_block []))),
        call_writeSSE (frame (demo json_answer) (content_block_delta 1 (text_delta (str ''Hi'')))),
        read_rawEvent (raw_of ''[DONE]''),
        call_finish]
   \<and> (\<exists>loop thrown.
         calls (snd (respond (demo json_answer)
                  (None, stream_of [raw_of ''text'', raw_of ''[DONE]'', raw_of ''stop'']) demo_world)) =
           calls demo_world @ stream_calls loop thrown
         \<and> count_list (stream_calls loop thrown) call_finish = (if thrown = None then 1 else 0))"
proof -
  let ?r = "stream_of [raw_of ''text'', raw_of ''[DONE]'', raw_of ''stop'']"
  have a: "str ''choices'' \<notin> set (own_props ?r)"
    by (simp add: stream_of_def)
  have b: "calls (snd (stream_callback (demo json_answer) ?r None demo_world)) =
       [read_rawEvent (raw_of ''text''),
        call_translateChunk chunk_text initialStreamState,
        returned_translateChunk
          [message_start, content_block_start 1 (text_block []),
           content_block_delta 1 (text_delta (str ''Hi''))],
        call_writeSSE (frame (demo json_answer) message_start),
        call_writeSSE (frame (demo json_answer) (content_block_start 1 (text_block []))),
        call_writeSSE (frame (demo json_answer) (content_block_delta 1 (text_delta (str ''Hi'')))),
        read_rawEvent (raw_of ''[DONE]''),
        call_finish]"
    by (simp add: run_simps del: for_await.simps(2))
  from streaming_order [OF a, of "demo json_answer" None demo_world]
  have c: "\<exists>loop thrown.
         calls (snd (respond (demo json_answer) (None, ?r) demo_world)) =
           calls demo_world @ stream_calls loop thrown
         \<and> count_list (stream_calls loop thrown) call_finish = (if thrown = None then 1 else 0)"
    by (elim exE conjE) (intro exI conjI, assumption+)
  from a b c show ?thesis by (intro conjI) assumption+
qed

text \<open>
  The claim C6 as it is written fails when a data string is not JSON: \<open>JSON.parse\<close> throws,
  the loop is left by the exception, and \<open>finish\<close> is never called.
\<close>

theorem streaming_order_counterexample:
  "fst (stream_callback (demo json_answer) (stream_of [raw_of ''text'', raw_of ''{'']) None demo_world) =
     Inl SyntaxError
   \<and> count_list
        (calls (snd (stream_callback (demo json_answer) (stream_of [raw_of ''text'', raw_of ''{''])
                       None demo_world)))
        call_finish = 0"
  by (simp add: run_simps del: for_await.simps(2))

text \<open>
  C2 (amended).  The stream state that a streaming response starts with has
  \<open>messageStartSent\<close> false, \<open>contentBlockIndex\<close> 0, \<open>contentBlockOpen\<close> false and no tool
  calls; it is the state given to the first call of the translator.
\<close>

theorem initial_stream_state:
  "messageStartSent initialStreamState = False
   \<and> contentBlockIndex initialStreamState = 0
   \<and> contentBlockOpen initialStreamState = False
   \<and> toolCalls initialStreamState = []
   \<and> (str ''choices'' \<notin> set (own_props response) \<longrightarrow>
        (\<exists>loop thrown.
           calls (snd (respond X (ts, response) w)) = calls w @ stream_calls loop thrown
           \<and> (\<forall>c \<in> set loop. is_stream_work c)
           \<and> first_translate_state loop \<in> {None, Some initialStreamState}))"
proof -
  have "\<exists>loop thrown.
           calls (snd (respond X (ts, response) w)) = calls w @ stream_calls loop thrown
           \<and> (\<forall>c \<in> set loop. is_stream_work c)
           \<and> first_translate_state loop \<in> {None, Some initialStreamState}"
    if n: "str ''choices'' \<notin> set (own_props response)"
    using respond_stream_thrown(2) [OF n, where X = X and ts = ts and w = w] by blast
  then show ?thesis by (simp add: initialStreamState_def)
qed

theorem initial_stream_state_witness:
  "str ''choices'' \<notin> set (own_props (stream_of [raw_of ''text'']))
   \<and> first_translate_state
        (calls (snd (stream_callback (demo json_answer) (stream_of [raw_of ''text'']) None demo_world))) =
       Some \<lparr>messageStartSent = False, contentBlockIndex = 0, contentBlockOpen = False,
             toolCalls = []\<rparr>
   \<and> (\<exists>loop thrown.
         calls (snd (respond (demo json_answer) (None, stream_of [raw_of ''text'']) demo_world)) =
           calls demo_world @ stream_calls loop thrown
         \<and> first_translate_state loop \<in> {None, Some initialStreamState})"
proof -
  have a: "str ''choices'' \<notin> set (own_props (stream_of [raw_of ''text'']))"
    by (simp add: stream_of_def)
  have b: "first_translate_state
        (calls (snd (stream_callback (demo json_answer) (stream_of [raw_of ''text'']) None demo_world))) =
       Some \<lparr>messageStartSent = False, contentBlockIndex = 0, contentBlockOpen = False,
             toolCalls = []\<rparr>"
    by (simp add: run_simps del: for_await.simps(2))
  from initial_stream_state [of "stream_of [raw_of ''text'']" "demo json_answer" None demo_world]
  have "str ''choices'' \<notin> set (own_props (stream_of [raw_of ''text''])) \<longrightarrow>
        (\<exists>loop thrown.
           calls (snd (respond (demo json_answer) (None, stream_of [raw_of ''text'']) demo_world)) =
             calls demo_world @ stream_calls loop thrown
           \<and> (\<forall>c \<in> set loop. is_stream_work c)
           \<and> first_translate_state loop \<in> {None, Some initialStreamState})"
    by (elim conjE) assumption
  from this a
  have "\<exists>loop thrown.
           calls (snd (respond (demo json_answer) (None, stream_of [raw_of ''text'']) demo_world)) =
             calls demo_world @ stream_calls loop thrown
           \<and> (\<forall>c \<in> set loop. is_stream_work c)
           \<and> first_translate_state loop \<in> {None, Some initialStreamState}"
    by (rule mp)
  then have c: "\<exists>loop thrown.
         calls (snd (respond (demo json_answer) (None, stream_of [raw_of ''text'']) demo_world)) =
           calls demo_world @ stream_calls loop thrown
         \<and> first_translate_state loop \<in> {None, Some initialStreamState}"
    by (elim exE conjE) (intro exI conjI, assumption+)
  from a b c show ?thesis by (intro conjI) assumption+
qed

text \<open>The claim C2 as it is written fails: the index starts at 0, not at -1.\<close>

theorem initial_stream_state_counterexample:
  "contentBlockIndex initialStreamState \<noteq> - 1"
  by (simp add: initialStreamState_def)

end
